theory Spec2Isabelle
  imports Main "HOL-Library.Monad_Syntax"
begin

section \<open>The node store\<close>

text \<open>
  The Go package keeps its nodes on the garbage-collected heap and links them by
  pointers, including a parent pointer, with one package-level sentinel \<open>tNil\<close>.
  The model keeps the nodes in a store from addresses to node records. A pointer is
  either Go's \<open>nil\<close> (\<open>Null\<close>) or the address of a node; the sentinel lives at
  address 0.

  Every operation returns an \<open>option\<close>: \<open>None\<close> means that the call does not
  return, because it dereferences \<open>nil\<close> (a Go panic) or because a loop never ends.
\<close>

datatype color = red | black

datatype ptr = Null | Ref nat

text \<open>
  An \<open>Item\<close> is any value with a \<open>Less\<close> method. The model takes an item to be a
  key of a linear order together with a payload that \<open>Less\<close> does not look at, so
  that two different items can be equal under the comparison. The interface value
  \<open>nil\<close> is \<open>None\<close>.
\<close>

type_synonym ('k, 'v) item = "'k \<times> 'v"

definition Less :: "('k::linorder, 'v) item \<Rightarrow> ('k, 'v) item \<Rightarrow> bool" where
  "Less a b = (fst a < fst b)"

text \<open>Calling \<open>Less\<close> on a \<open>nil\<close> receiver or with a \<open>nil\<close> argument panics.\<close>

fun LessI :: "('k::linorder, 'v) item option \<Rightarrow> ('k, 'v) item option \<Rightarrow> bool option" where
  "LessI (Some a) (Some b) = Some (Less a b)"
| "LessI _ _ = None"

record ('k, 'v) node =
  color :: color
  item :: "('k, 'v) item option"
  left :: ptr
  right :: ptr
  parent :: ptr

definition tNil :: ptr where
  "tNil = Ref 0"

text \<open>\<open>var tNil = &node{black, nil, nil, nil, nil}\<close>: the links of the sentinel are \<open>nil\<close>.\<close>

definition tNil_node :: "('k, 'v) node" where
  "tNil_node = \<lparr>color = black, item = None, left = Null, right = Null, parent = Null\<rparr>"

text \<open>
  The tree \<open>rbTree{root, length}\<close>, carried together with the store of nodes and the
  next address that \<open>&node{...}\<close> hands out.
\<close>

record ('k, 'v) rbTree =
  root :: ptr
  rb_length :: int
  heap :: "nat \<Rightarrow> ('k, 'v) node"
  nextAddr :: nat

fun deref :: "('k, 'v) rbTree \<Rightarrow> ptr \<Rightarrow> ('k, 'v) node option" where
  "deref s Null = None"
| "deref s (Ref a) = Some (heap s a)"

definition get_color :: "('k, 'v) rbTree \<Rightarrow> ptr \<Rightarrow> color option" where
  "get_color s p = map_option color (deref s p)"

definition get_item :: "('k, 'v) rbTree \<Rightarrow> ptr \<Rightarrow> ('k, 'v) item option option" where
  "get_item s p = map_option item (deref s p)"

definition get_left :: "('k, 'v) rbTree \<Rightarrow> ptr \<Rightarrow> ptr option" where
  "get_left s p = map_option left (deref s p)"

definition get_right :: "('k, 'v) rbTree \<Rightarrow> ptr \<Rightarrow> ptr option" where
  "get_right s p = map_option right (deref s p)"

definition get_parent :: "('k, 'v) rbTree \<Rightarrow> ptr \<Rightarrow> ptr option" where
  "get_parent s p = map_option parent (deref s p)"

fun store :: "('k, 'v) rbTree \<Rightarrow> ptr \<Rightarrow> (('k, 'v) node \<Rightarrow> ('k, 'v) node) \<Rightarrow> ('k, 'v) rbTree option" where
  "store s Null f = None"
| "store s (Ref a) f = Some (s\<lparr>heap := (heap s)(a := f (heap s a))\<rparr>)"

definition set_color :: "('k, 'v) rbTree \<Rightarrow> ptr \<Rightarrow> color \<Rightarrow> ('k, 'v) rbTree option" where
  "set_color s p c = store s p (\<lambda>n. n\<lparr>color := c\<rparr>)"

definition set_item :: "('k, 'v) rbTree \<Rightarrow> ptr \<Rightarrow> ('k, 'v) item option \<Rightarrow> ('k, 'v) rbTree option" where
  "set_item s p i = store s p (\<lambda>n. n\<lparr>item := i\<rparr>)"

definition set_left :: "('k, 'v) rbTree \<Rightarrow> ptr \<Rightarrow> ptr \<Rightarrow> ('k, 'v) rbTree option" where
  "set_left s p q = store s p (\<lambda>n. n\<lparr>left := q\<rparr>)"

definition set_right :: "('k, 'v) rbTree \<Rightarrow> ptr \<Rightarrow> ptr \<Rightarrow> ('k, 'v) rbTree option" where
  "set_right s p q = store s p (\<lambda>n. n\<lparr>right := q\<rparr>)"

definition set_parent :: "('k, 'v) rbTree \<Rightarrow> ptr \<Rightarrow> ptr \<Rightarrow> ('k, 'v) rbTree option" where
  "set_parent s p q = store s p (\<lambda>n. n\<lparr>parent := q\<rparr>)"

text \<open>\<open>&node{...}\<close>: a new node at an address that no pointer holds yet.\<close>

definition alloc :: "('k, 'v) rbTree \<Rightarrow> ('k, 'v) node \<Rightarrow> ptr \<times> ('k, 'v) rbTree" where
  "alloc s n = (Ref (nextAddr s), s\<lparr>heap := (heap s)(nextAddr s := n), nextAddr := Suc (nextAddr s)\<rparr>)"

section \<open>node.go\<close>

partial_function (option) node_min :: "('k, 'v) rbTree \<Rightarrow> ptr \<Rightarrow> ptr option" where
  "node_min s n = do {
     l \<leftarrow> get_left s n;
     if l \<noteq> tNil then node_min s l else Some n
   }"

declare node_min.simps [code]



text \<open>The inner loop of \<open>ceiling\<close>: \<open>for parent != tNil && ch == parent.right\<close>.\<close>

partial_function (option) ceiling_climb :: "('k, 'v) rbTree \<Rightarrow> ptr \<Rightarrow> ptr \<Rightarrow> ptr option" where
  "ceiling_climb s par ch =
     (if par \<noteq> tNil then do {
        pr \<leftarrow> get_right s par;
        if ch = pr then do {
          pp \<leftarrow> get_parent s par;
          ceiling_climb s pp par
        } else Some par
      } else Some par)"

declare ceiling_climb.simps [code]

partial_function (option) node_ceiling :: "('k::linorder, 'v) rbTree \<Rightarrow> ptr \<Rightarrow> ('k, 'v) item \<Rightarrow> ptr option" where
  "node_ceiling s p it =
     (if p \<noteq> tNil then do {
        pi \<leftarrow> get_item s p;
        lt \<leftarrow> LessI (Some it) pi;
        if lt then do {
          pl \<leftarrow> get_left s p;
          if pl \<noteq> tNil then node_ceiling s pl it else Some p
        } else do {
          gt \<leftarrow> LessI pi (Some it);
          if gt then do {
            pr \<leftarrow> get_right s p;
            if pr \<noteq> tNil then node_ceiling s pr it
            else do {
              par \<leftarrow> get_parent s p;
              ceiling_climb s par p
            }
          } else Some p
        }
      } else Some tNil)"

declare node_ceiling.simps [code]

text \<open>The inner loop of \<open>floor\<close>: \<open>for parent != tNil && ch == parent.left\<close>.\<close>

partial_function (option) floor_climb :: "('k, 'v) rbTree \<Rightarrow> ptr \<Rightarrow> ptr \<Rightarrow> ptr option" where
  "floor_climb s par ch =
     (if par \<noteq> tNil then do {
        pl \<leftarrow> get_left s par;
        if ch = pl then do {
          pp \<leftarrow> get_parent s par;
          floor_climb s pp par
        } else Some par
      } else Some par)"

declare floor_climb.simps [code]

partial_function (option) node_floor :: "('k::linorder, 'v) rbTree \<Rightarrow> ptr \<Rightarrow> ('k, 'v) item \<Rightarrow> ptr option" where
  "node_floor s p it =
     (if p \<noteq> tNil then do {
        pi \<leftarrow> get_item s p;
        gt \<leftarrow> LessI pi (Some it);
        if gt then do {
          pr \<leftarrow> get_right s p;
          if pr \<noteq> tNil then node_floor s pr it else Some p
        } else do {
          lt \<leftarrow> LessI (Some it) pi;
          if lt then do {
            pl \<leftarrow> get_left s p;
            if pl \<noteq> tNil then node_floor s pl it
            else do {
              par \<leftarrow> get_parent s p;
              floor_climb s par p
            }
          } else Some p
        }
      } else Some tNil)"

declare node_floor.simps [code]

section \<open>rbtree.go\<close>

datatype error = ErrorFromGreaterThanToKey | ErrorOutOfSubTreeRange

text \<open>\<open>New\<close>: an empty tree; the store holds the sentinel only.\<close>

definition New :: "('k, 'v) rbTree" where
  "New = \<lparr>root = tNil, rb_length = 0, heap = (\<lambda>_. tNil_node), nextAddr = 1\<rparr>"

definition rbTree_Len :: "('k, 'v) rbTree \<Rightarrow> int" where
  "rbTree_Len s = rb_length s"

text \<open>\<open>find\<close>: the loop over \<open>x\<close> and its parent \<open>y\<close>; returns \<open>(x, y)\<close>.\<close>

partial_function (option) find_loop :: "('k::linorder, 'v) rbTree \<Rightarrow> ('k, 'v) item \<Rightarrow> ptr \<Rightarrow> ptr \<Rightarrow> (ptr \<times> ptr) option" where
  "find_loop s it x y =
     (if x \<noteq> tNil then do {
        xi \<leftarrow> get_item s x;
        lt \<leftarrow> LessI (Some it) xi;
        if lt then do {
          xl \<leftarrow> get_left s x;
          find_loop s it xl x
        } else do {
          gt \<leftarrow> LessI xi (Some it);
          if gt then do {
            xr \<leftarrow> get_right s x;
            find_loop s it xr x
          } else Some (x, y)
        }
      } else Some (x, y))"

declare find_loop.simps [code]

definition rbTree_find :: "('k::linorder, 'v) rbTree \<Rightarrow> ('k, 'v) item \<Rightarrow> (ptr \<times> ptr) option" where
  "rbTree_find s it = find_loop s it (root s) tNil"

definition leftRotate :: "('k, 'v) rbTree \<Rightarrow> ptr \<Rightarrow> ('k, 'v) rbTree option" where
  "leftRotate s x = do {
     y \<leftarrow> get_right s x;
     yl \<leftarrow> get_left s y;
     s \<leftarrow> set_right s x yl;
     yl \<leftarrow> get_left s y;
     s \<leftarrow> (if yl \<noteq> tNil then set_parent s yl x else Some s);
     xp \<leftarrow> get_parent s x;
     s \<leftarrow> set_parent s y xp;
     xp \<leftarrow> get_parent s x;
     s \<leftarrow> (if xp = tNil then Some (s\<lparr>root := y\<rparr>)
          else do {
            xpl \<leftarrow> get_left s xp;
            if x = xpl then set_left s xp y else set_right s xp y
          });
     s \<leftarrow> set_left s y x;
     set_parent s x y
   }"

definition rightRotate :: "('k, 'v) rbTree \<Rightarrow> ptr \<Rightarrow> ('k, 'v) rbTree option" where
  "rightRotate s y = do {
     x \<leftarrow> get_left s y;
     xr \<leftarrow> get_right s x;
     s \<leftarrow> set_left s y xr;
     xr \<leftarrow> get_right s x;
     s \<leftarrow> (if xr \<noteq> tNil then set_parent s xr y else Some s);
     yp \<leftarrow> get_parent s y;
     s \<leftarrow> set_parent s x yp;
     yp \<leftarrow> get_parent s y;
     s \<leftarrow> (if yp = tNil then Some (s\<lparr>root := x\<rparr>)
          else do {
            ypl \<leftarrow> get_left s yp;
            if y = ypl then set_left s yp x else set_right s yp x
          });
     s \<leftarrow> set_right s x y;
     set_parent s y x
   }"

definition transplant :: "('k, 'v) rbTree \<Rightarrow> ptr \<Rightarrow> ptr \<Rightarrow> ('k, 'v) rbTree option" where
  "transplant s u v = do {
     up \<leftarrow> get_parent s u;
     s \<leftarrow> (if up = tNil then Some (s\<lparr>root := v\<rparr>)
          else do {
            upl \<leftarrow> get_left s up;
            if u = upl then set_left s up v else set_right s up v
          });
     up \<leftarrow> get_parent s u;
     set_parent s v up
   }"

text \<open>\<open>insertFixup\<close>: one call is one test of the loop condition.\<close>

partial_function (option) insertFixup :: "('k, 'v) rbTree \<Rightarrow> ptr \<Rightarrow> ('k, 'v) rbTree option" where
  "insertFixup s z = do {
     zp \<leftarrow> get_parent s z;
     zpc \<leftarrow> get_color s zp;
     if zpc = red then do {
       zpp \<leftarrow> get_parent s zp;
       zppl \<leftarrow> get_left s zpp;
       if zp = zppl then do {
         y \<leftarrow> get_right s zpp;
         yc \<leftarrow> get_color s y;
         if yc = red then do {
           s \<leftarrow> set_color s zp black;
           s \<leftarrow> set_color s y black;
           zp \<leftarrow> get_parent s z;
           zpp \<leftarrow> get_parent s zp;
           s \<leftarrow> set_color s zpp red;
           zp \<leftarrow> get_parent s z;
           zpp \<leftarrow> get_parent s zp;
           insertFixup s zpp
         } else do {
           zpr \<leftarrow> get_right s zp;
           s' \<leftarrow> (if z = zpr then leftRotate s zp else Some s);
           let z' = (if z = zpr then zp else z);
           zp \<leftarrow> get_parent s' z';
           s' \<leftarrow> set_color s' zp black;
           zp \<leftarrow> get_parent s' z';
           zpp \<leftarrow> get_parent s' zp;
           s' \<leftarrow> set_color s' zpp red;
           zp \<leftarrow> get_parent s' z';
           zpp \<leftarrow> get_parent s' zp;
           s' \<leftarrow> rightRotate s' zpp;
           insertFixup s' z'
         }
       } else do {
         y \<leftarrow> get_left s zpp;
         yc \<leftarrow> get_color s y;
         if yc = red then do {
           s \<leftarrow> set_color s zp black;
           s \<leftarrow> set_color s y black;
           zp \<leftarrow> get_parent s z;
           zpp \<leftarrow> get_parent s zp;
           s \<leftarrow> set_color s zpp red;
           zp \<leftarrow> get_parent s z;
           zpp \<leftarrow> get_parent s zp;
           insertFixup s zpp
         } else do {
           zpl \<leftarrow> get_left s zp;
           s' \<leftarrow> (if z = zpl then rightRotate s zp else Some s);
           let z' = (if z = zpl then zp else z);
           zp \<leftarrow> get_parent s' z';
           s' \<leftarrow> set_color s' zp black;
           zp \<leftarrow> get_parent s' z';
           zpp \<leftarrow> get_parent s' zp;
           s' \<leftarrow> set_color s' zpp red;
           zp \<leftarrow> get_parent s' z';
           zpp \<leftarrow> get_parent s' zp;
           s' \<leftarrow> leftRotate s' zpp;
           insertFixup s' z'
         }
       }
     } else set_color s (root s) black
   }"

declare insertFixup.simps [code]

text \<open>
  \<open>insert\<close>: returns the node that now holds the item, the found one or \<open>z\<close>.
\<close>

definition rbTree_insert :: "('k::linorder, 'v) rbTree \<Rightarrow> ptr \<Rightarrow> (('k, 'v) rbTree \<times> ptr) option" where
  "rbTree_insert s z = do {
     zi \<leftarrow> get_item s z;
     zi' \<leftarrow> zi;
     (x, y) \<leftarrow> rbTree_find s zi';
     if x \<noteq> tNil then do {
       s \<leftarrow> set_item s x zi;
       Some (s, x)
     } else do {
       s \<leftarrow> set_parent s z y;
       s \<leftarrow> (if y = tNil then Some (s\<lparr>root := z\<rparr>)
            else do {
              yi \<leftarrow> get_item s y;
              lt \<leftarrow> LessI zi yi;
              if lt then set_left s y z else set_right s y z
            });
       s \<leftarrow> set_color s z red;
       s \<leftarrow> set_left s z tNil;
       s \<leftarrow> set_right s z tNil;
       s \<leftarrow> insertFixup s z;
       Some (s, z)
     }
   }"

text \<open>\<open>Insert\<close> returns \<open>(bool, error)\<close>; the model adds the tree after the call.\<close>

definition rbTree_Insert :: "('k::linorder, 'v) rbTree \<Rightarrow> ('k, 'v) item \<Rightarrow> (('k, 'v) rbTree \<times> bool \<times> error option) option" where
  "rbTree_Insert s it = do {
     let (z, s) = alloc s \<lparr>color = red, item = Some it, left = tNil, right = tNil, parent = tNil\<rparr>;
     (s, res) \<leftarrow> rbTree_insert s z;
     if res = z then Some (s\<lparr>rb_length := rb_length s + 1\<rparr>, True, None)
     else Some (s, False, None)
   }"

text \<open>\<open>removeFixup\<close>: one call is one test of the loop condition.\<close>

partial_function (option) removeFixup :: "('k, 'v) rbTree \<Rightarrow> ptr \<Rightarrow> ('k, 'v) rbTree option" where
  "removeFixup s x = do {
     xc \<leftarrow> get_color s x;
     if x \<noteq> root s \<and> xc = black then do {
       xp \<leftarrow> get_parent s x;
       xpl \<leftarrow> get_left s xp;
       if x = xpl then do {
         w \<leftarrow> get_right s xp;
         wc \<leftarrow> get_color s w;
         s \<leftarrow> (if wc = red then do {
                s \<leftarrow> set_color s w black;
                xp \<leftarrow> get_parent s x;
                s \<leftarrow> set_color s xp red;
                xp \<leftarrow> get_parent s x;
                leftRotate s xp
              } else Some s);
         xp \<leftarrow> get_parent s x;
         xpr \<leftarrow> get_right s xp;
         let w = (if wc = red then xpr else w);
         wl \<leftarrow> get_left s w;
         wlc \<leftarrow> get_color s wl;
         wr \<leftarrow> get_right s w;
         wrc \<leftarrow> (if wlc = black then get_color s wr else Some black);
         if wlc = black \<and> wrc = black then do {
           s \<leftarrow> set_color s w red;
           xp \<leftarrow> get_parent s x;
           removeFixup s xp
         } else do {
           wr \<leftarrow> get_right s w;
           wrc \<leftarrow> get_color s wr;
           s' \<leftarrow> (if wrc = black then do {
                 wl \<leftarrow> get_left s w;
                 s \<leftarrow> set_color s wl black;
                 s \<leftarrow> set_color s w red;
                 rightRotate s w
               } else Some s);
           x' \<leftarrow> (if wrc = black then get_parent s' x else Some x);
           xp \<leftarrow> get_parent s' x';
           xpc \<leftarrow> get_color s' xp;
           s' \<leftarrow> set_color s' w xpc;
           xp \<leftarrow> get_parent s' x';
           s' \<leftarrow> set_color s' xp black;
           wr \<leftarrow> get_right s' w;
           s' \<leftarrow> set_color s' wr black;
           xp \<leftarrow> get_parent s' x';
           s' \<leftarrow> leftRotate s' xp;
           removeFixup s' (root s')
         }
       } else do {
         w \<leftarrow> get_left s xp;
         wc \<leftarrow> get_color s w;
         s \<leftarrow> (if wc = red then do {
                s \<leftarrow> set_color s w black;
                xp \<leftarrow> get_parent s x;
                s \<leftarrow> set_color s xp red;
                xp \<leftarrow> get_parent s x;
                rightRotate s xp
              } else Some s);
         xp \<leftarrow> get_parent s x;
         xpl \<leftarrow> get_left s xp;
         let w = (if wc = red then xpl else w);
         wr \<leftarrow> get_right s w;
         wrc \<leftarrow> get_color s wr;
         wl \<leftarrow> get_left s w;
         wlc \<leftarrow> (if wrc = black then get_color s wl else Some black);
         if wrc = black \<and> wlc = black then do {
           s \<leftarrow> set_color s w red;
           xp \<leftarrow> get_parent s x;
           removeFixup s xp
         } else do {
           wl \<leftarrow> get_left s w;
           wlc \<leftarrow> get_color s wl;
           s' \<leftarrow> (if wlc = black then do {
                 wr \<leftarrow> get_right s w;
                 s \<leftarrow> set_color s wr black;
                 s \<leftarrow> set_color s w red;
                 leftRotate s w
               } else Some s);
           x' \<leftarrow> (if wlc = black then get_parent s' x else Some x);
           xp \<leftarrow> get_parent s' x';
           xpc \<leftarrow> get_color s' xp;
           s' \<leftarrow> set_color s' w xpc;
           xp \<leftarrow> get_parent s' x';
           s' \<leftarrow> set_color s' xp black;
           wl \<leftarrow> get_left s' w;
           s' \<leftarrow> set_color s' wl black;
           xp \<leftarrow> get_parent s' x';
           s' \<leftarrow> rightRotate s' xp;
           removeFixup s' (root s')
         }
       }
     } else set_color s x black
   }"

declare removeFixup.simps [code]

text \<open>\<open>remove\<close>: unlinks the node \<open>z\<close>, then repairs the colours from \<open>x\<close>.\<close>

definition rbTree_remove :: "('k, 'v) rbTree \<Rightarrow> ptr \<Rightarrow> ('k, 'v) rbTree option" where
  "rbTree_remove s z = do {
     zc \<leftarrow> get_color s z;
     zl \<leftarrow> get_left s z;
     zr \<leftarrow> get_right s z;
     (s, x, yColor) \<leftarrow>
       (if zl = tNil then do {
          s \<leftarrow> transplant s z zr;
          Some (s, zr, zc)
        } else if zr = tNil then do {
          s \<leftarrow> transplant s z zl;
          Some (s, zl, zc)
        } else do {
          y \<leftarrow> node_min s zr;
          yc \<leftarrow> get_color s y;
          x \<leftarrow> get_right s y;
          yp \<leftarrow> get_parent s y;
          s \<leftarrow> (if yp = z then set_parent s x y
               else do {
                 yr \<leftarrow> get_right s y;
                 s \<leftarrow> transplant s y yr;
                 zr \<leftarrow> get_right s z;
                 s \<leftarrow> set_right s y zr;
                 yr \<leftarrow> get_right s y;
                 set_parent s yr y
               });
          s \<leftarrow> transplant s z y;
          zl \<leftarrow> get_left s z;
          s \<leftarrow> set_left s y zl;
          yl \<leftarrow> get_left s y;
          s \<leftarrow> set_parent s yl y;
          zc \<leftarrow> get_color s z;
          s \<leftarrow> set_color s y zc;
          Some (s, x, yc)
        });
     if yColor = black then removeFixup s x else Some s
   }"

definition rbTree_Remove :: "('k::linorder, 'v) rbTree \<Rightarrow> ('k, 'v) item \<Rightarrow> (('k, 'v) rbTree \<times> bool \<times> error option) option" where
  "rbTree_Remove s it = do {
     (z, _) \<leftarrow> rbTree_find s it;
     if z = tNil then Some (s, False, None)
     else do {
       s \<leftarrow> rbTree_remove s z;
       Some (s\<lparr>rb_length := rb_length s - 1\<rparr>, True, None)
     }
   }"

text \<open>\<open>Find\<close>, \<open>Min\<close> and \<open>Max\<close> return an \<open>Item\<close>, which may be \<open>nil\<close>.\<close>

definition rbTree_Find :: "('k::linorder, 'v) rbTree \<Rightarrow> ('k, 'v) item \<Rightarrow> ('k, 'v) item option option" where
  "rbTree_Find s it = do {
     (x, _) \<leftarrow> rbTree_find s it;
     if x = tNil then Some None else get_item s x
   }"



section \<open>The iterator\<close>

datatype state = deferencable | beforeFirst | pastRear

record iterator =
  node :: ptr
  state :: state

definition rbTree_NewIterator :: "('k, 'v) rbTree \<Rightarrow> iterator option" where
  "rbTree_NewIterator s =
     (if rbTree_Len s = 0 then Some \<lparr>node = tNil, state = beforeFirst\<rparr>
      else do {
        m \<leftarrow> node_min s (root s);
        Some \<lparr>node = m, state = beforeFirst\<rparr>
      })"

definition iterator_IsValid :: "iterator \<Rightarrow> bool" where
  "iterator_IsValid it = (state it = deferencable)"

text \<open>The loop of \<open>Next\<close>: \<open>for y.parent != tNil && y.right == x\<close>; returns \<open>(x, y)\<close>.\<close>

partial_function (option) next_climb :: "('k, 'v) rbTree \<Rightarrow> ptr \<Rightarrow> ptr \<Rightarrow> (ptr \<times> ptr) option" where
  "next_climb s x y = do {
     yp \<leftarrow> get_parent s y;
     if yp \<noteq> tNil then do {
       yr \<leftarrow> get_right s y;
       if yr = x then next_climb s y yp else Some (x, y)
     } else Some (x, y)
   }"

declare next_climb.simps [code]

text \<open>\<open>Next\<close> returns the item; the model adds the iterator after the call.\<close>

definition iterator_Next :: "('k, 'v) rbTree \<Rightarrow> iterator \<Rightarrow> (iterator \<times> ('k, 'v) item option) option" where
  "iterator_Next s it =
     (if state it = pastRear \<or> node it = tNil then Some (it, None)
      else if state it = beforeFirst then do {
        i \<leftarrow> get_item s (node it);
        Some (it\<lparr>state := deferencable\<rparr>, i)
      } else do {
        r \<leftarrow> get_right s (node it);
        if r \<noteq> tNil then do {
          m \<leftarrow> node_min s r;
          i \<leftarrow> get_item s m;
          Some (it\<lparr>node := m\<rparr>, i)
        } else do {
          yp \<leftarrow> get_parent s (node it);
          (x, y) \<leftarrow> next_climb s (node it) yp;
          yr \<leftarrow> get_right s y;
          if yr = x then Some (it\<lparr>node := y, state := pastRear\<rparr>, None)
          else do {
            i \<leftarrow> get_item s y;
            Some (it\<lparr>node := y\<rparr>, i)
          }
        }
      })"

definition iterator_Get :: "('k, 'v) rbTree \<Rightarrow> iterator \<Rightarrow> ('k, 'v) item option option" where
  "iterator_Get s it = (if \<not> iterator_IsValid it then Some None else get_item s (node it))"

section \<open>The sub tree and its iterator\<close>

text \<open>
  The view \<open>subTree{tree, fromKey, toKey}\<close>. Its \<open>tree\<close> field points to the backing
  tree; the model passes that tree to every operation of the view.
\<close>

record ('k, 'v) subTree =
  fromKey :: "('k, 'v) item"
  toKey :: "('k, 'v) item"

record ('k, 'v) subIterator =
  iter :: iterator
  it_toKey :: "('k, 'v) item"


definition subTree_inRange :: "('k::linorder, 'v) subTree \<Rightarrow> ('k, 'v) item \<Rightarrow> bool" where
  "subTree_inRange st it = (\<not> Less it (fromKey st) \<and> \<not> Less (toKey st) it)"

definition subTree_Insert :: "('k::linorder, 'v) subTree \<Rightarrow> ('k, 'v) rbTree \<Rightarrow> ('k, 'v) item \<Rightarrow> (('k, 'v) rbTree \<times> bool \<times> error option) option" where
  "subTree_Insert st s it =
     (if \<not> subTree_inRange st it then Some (s, False, Some ErrorOutOfSubTreeRange)
      else rbTree_Insert s it)"

definition subTree_Remove :: "('k::linorder, 'v) subTree \<Rightarrow> ('k, 'v) rbTree \<Rightarrow> ('k, 'v) item \<Rightarrow> (('k, 'v) rbTree \<times> bool \<times> error option) option" where
  "subTree_Remove st s it =
     (if \<not> subTree_inRange st it then Some (s, False, Some ErrorOutOfSubTreeRange)
      else rbTree_Remove s it)"

definition subTree_Find :: "('k::linorder, 'v) subTree \<Rightarrow> ('k, 'v) rbTree \<Rightarrow> ('k, 'v) item \<Rightarrow> ('k, 'v) item option option" where
  "subTree_Find st s it =
     (if \<not> subTree_inRange st it then Some None
      else rbTree_Find s it)"


definition subTree_Max :: "('k::linorder, 'v) subTree \<Rightarrow> ('k, 'v) rbTree \<Rightarrow> ('k, 'v) item option option" where
  "subTree_Max st s = do {
     n \<leftarrow> node_floor s (root s) (toKey st);
     if n = tNil then Some None else get_item s n
   }"

definition subTree_NewIterator :: "('k::linorder, 'v) subTree \<Rightarrow> ('k, 'v) rbTree \<Rightarrow> ('k, 'v) subIterator option" where
  "subTree_NewIterator st s = do {
     n \<leftarrow> node_ceiling s (root s) (fromKey st);
     Some \<lparr>iter = \<lparr>node = n, state = beforeFirst\<rparr>, it_toKey = toKey st\<rparr>
   }"


definition subIterator_Next :: "('k::linorder, 'v) rbTree \<Rightarrow> ('k, 'v) subIterator \<Rightarrow> (('k, 'v) subIterator \<times> ('k, 'v) item option) option" where
  "subIterator_Next s it =
     (if state (iter it) = pastRear then Some (it, None)
      else do {
        (i, res) \<leftarrow> iterator_Next s (iter it);
        case res of
          None \<Rightarrow> Some (it\<lparr>iter := i\<rparr>, None)
        | Some x \<Rightarrow>
            if Less (it_toKey it) x then Some (it\<lparr>iter := i\<lparr>state := pastRear\<rparr>\<rparr>, None)
            else Some (it\<lparr>iter := i\<rparr>, Some x)
      })"

definition subIterator_IsValid :: "('k::linorder, 'v) rbTree \<Rightarrow> ('k, 'v) subIterator \<Rightarrow> bool option" where
  "subIterator_IsValid s it =
     (if \<not> iterator_IsValid (iter it) then Some False
      else case node (iter it) of
        Null \<Rightarrow> Some False
      | Ref a \<Rightarrow> (case item (heap s a) of
          None \<Rightarrow> Some False
        | Some x \<Rightarrow> Some (\<not> Less (it_toKey it) x)))"

text \<open>
  What a client loop \<open>for { val := iter.Next(); if val == nil { break }; ... }\<close>
  collects: the items that \<open>Next\<close> returns up to the first \<open>nil\<close>.
\<close>

partial_function (option) iterator_collect :: "('k, 'v) rbTree \<Rightarrow> iterator \<Rightarrow> ('k, 'v) item list option" where
  "iterator_collect s it = do {
     (it', val) \<leftarrow> iterator_Next s it;
     if val = None then Some []
     else do {
       xs \<leftarrow> iterator_collect s it';
       Some (the val # xs)
     }
   }"

declare iterator_collect.simps [code]

partial_function (option) subIterator_collect :: "('k::linorder, 'v) rbTree \<Rightarrow> ('k, 'v) subIterator \<Rightarrow> ('k, 'v) item list option" where
  "subIterator_collect s it = do {
     (it', val) \<leftarrow> subIterator_Next s it;
     if val = None then Some []
     else do {
       xs \<leftarrow> subIterator_collect s it';
       Some (the val # xs)
     }
   }"

declare subIterator_collect.simps [code]

section \<open>Trees in the store\<close>

text \<open>
  The tree that the links of the store describe below a pointer: the address, the
  colour and the item of every node, in shape. \<open>tree_of n s p\<close> follows the child
  links from \<open>p\<close> for at most \<open>n\<close> levels; it is \<open>None\<close> when the links do not
  end in the sentinel within \<open>n\<close> levels, reach \<open>nil\<close>, or reach a node without an
  item.
\<close>

datatype ('k, 'v) tree = Leaf | Node "('k, 'v) tree" nat color "('k, 'v) item" "('k, 'v) tree"

fun tree_of :: "nat \<Rightarrow> ('k, 'v) rbTree \<Rightarrow> ptr \<Rightarrow> ('k, 'v) tree option" where
  "tree_of 0 s p = None"
| "tree_of (Suc n) s p =
     (if p = tNil then Some Leaf
      else case p of
        Null \<Rightarrow> None
      | Ref a \<Rightarrow> (case item (heap s a) of
          None \<Rightarrow> None
        | Some x \<Rightarrow> do {
            l \<leftarrow> tree_of n s (left (heap s a));
            r \<leftarrow> tree_of n s (right (heap s a));
            Some (Node l a (color (heap s a)) x r)
          }))"

fun inorder :: "('k, 'v) tree \<Rightarrow> ('k, 'v) item list" where
  "inorder Leaf = []"
| "inorder (Node l a c x r) = inorder l @ x # inorder r"

definition keys :: "('k, 'v) tree \<Rightarrow> 'k list" where
  "keys t = map fst (inorder t)"

fun addrs :: "('k, 'v) tree \<Rightarrow> nat list" where
  "addrs Leaf = []"
| "addrs (Node l a c x r) = addrs l @ a # addrs r"

fun color_of :: "('k, 'v) tree \<Rightarrow> color" where
  "color_of Leaf = black"
| "color_of (Node l a c x r) = c"

text \<open>No red node has a red child.\<close>

fun no_red_red :: "('k, 'v) tree \<Rightarrow> bool" where
  "no_red_red Leaf = True"
| "no_red_red (Node l a c x r) =
     ((c = black \<or> (color_of l = black \<and> color_of r = black)) \<and> no_red_red l \<and> no_red_red r)"

text \<open>The number of black nodes on every path from the root to a sentinel, left to right.\<close>

fun black_counts :: "('k, 'v) tree \<Rightarrow> nat list" where
  "black_counts Leaf = [0]"
| "black_counts (Node l a c x r) =
     map (\<lambda>n. if c = black then Suc n else n) (black_counts l @ black_counts r)"

definition equal_black_counts :: "('k, 'v) tree \<Rightarrow> bool" where
  "equal_black_counts t = (remdups (black_counts t) = [hd (black_counts t)])"

definition strictly_ascending :: "('k::linorder, 'v) tree \<Rightarrow> bool" where
  "strictly_ascending t = sorted_wrt (<) (keys t)"

text \<open>
  The red-black properties of the tree below the root of \<open>s\<close>. A tree of \<open>n\<close> nodes
  has its nodes below \<open>nextAddr s\<close>, so that many levels are enough.
\<close>

definition rb_invariants :: "('k::linorder, 'v) rbTree \<Rightarrow> bool" where
  "rb_invariants s =
     (case tree_of (nextAddr s) s (root s) of
        None \<Rightarrow> False
      | Some t \<Rightarrow> color_of t = black \<and> no_red_red t \<and> equal_black_counts t \<and> strictly_ascending t)"

section \<open>Sequences of calls\<close>

datatype ('k, 'v) call = Insert "('k, 'v) item" | Remove "('k, 'v) item"

fun do_call :: "('k::linorder, 'v) rbTree \<Rightarrow> ('k, 'v) call \<Rightarrow> (('k, 'v) rbTree \<times> bool \<times> error option) option" where
  "do_call s (Insert x) = rbTree_Insert s x"
| "do_call s (Remove x) = rbTree_Remove s x"

text \<open>The tree after a sequence of calls that all return, from the tree \<open>s\<close>.\<close>

fun do_calls :: "('k::linorder, 'v) rbTree \<Rightarrow> ('k, 'v) call list \<Rightarrow> ('k, 'v) rbTree option" where
  "do_calls s [] = Some s"
| "do_calls s (c # cs) = do {
     (s', _) \<leftarrow> do_call s c;
     do_calls s' cs
   }"

text \<open>\<open>IntItem\<close> of the tests: an integer key and nothing else.\<close>

definition IntItem :: "int \<Rightarrow> (int, unit) item" where
  "IntItem n = (n, ())"

text \<open>The tree of the tests \<open>TestIterator\<close>, \<open>TestSubTreeIterator\<close>, \<open>TestMinMax\<close> and \<open>TestSubTree\<close>.\<close>

definition test_seq :: "int list" where
  "test_seq = [41, 38, 31, 12, 19, 8, 9, 32, 6, 100, 2, -1, 57, 23, 21, 0, 0, 1]"

definition test_tree :: "(int, unit) rbTree option" where
  "test_tree = do_calls New (map (\<lambda>n. Insert (IntItem n)) test_seq)"

text \<open>The items that iterating over the view \<open>SubTree(f, t)\<close> of the tree \<open>s\<close> yields.\<close>

definition subTree_items :: "('k::linorder, 'v) rbTree \<Rightarrow> ('k, 'v) subTree \<Rightarrow> ('k, 'v) item list option" where
  "subTree_items s st = do {
     it \<leftarrow> subTree_NewIterator st s;
     subIterator_collect s it
   }"

definition rbTree_items :: "('k, 'v) rbTree \<Rightarrow> ('k, 'v) item list option" where
  "rbTree_items s = do {
     it \<leftarrow> rbTree_NewIterator s;
     iterator_collect s it
   }"

section \<open>Well-formed trees\<close>

text \<open>
  \<open>repr s p par t\<close>: below the pointer \<open>p\<close> the store holds the tree \<open>t\<close>, every
  node with its colour, item and children, the parent link of the topmost node
  being \<open>par\<close>. A leaf of \<open>t\<close> is the sentinel.
\<close>

fun repr :: "('k, 'v) rbTree \<Rightarrow> ptr \<Rightarrow> ptr \<Rightarrow> ('k, 'v) tree \<Rightarrow> bool" where
  "repr s p par Leaf = (p = tNil)"
| "repr s p par (Node l a c x r) =
     (p = Ref a \<and> a \<noteq> 0 \<and> color (heap s a) = c \<and> item (heap s a) = Some x \<and> parent (heap s a) = par
      \<and> repr s (left (heap s a)) (Ref a) l \<and> repr s (right (heap s a)) (Ref a) r)"

text \<open>The fields of the sentinel that no operation writes.\<close>

definition sentinel_ok :: "('k, 'v) rbTree \<Rightarrow> bool" where
  "sentinel_ok s = (item (heap s 0) = None \<and> left (heap s 0) = Null \<and> right (heap s 0) = Null)"

text \<open>
  The tree \<open>s\<close> holds the binary search tree \<open>t\<close>: strictly ascending keys, every
  node at an address of its own that \<open>&node{...}\<close> has handed out.
\<close>

definition well_formed :: "('k::linorder, 'v) rbTree \<Rightarrow> ('k, 'v) tree \<Rightarrow> bool" where
  "well_formed s t =
     (sentinel_ok s \<and> repr s (root s) tNil t \<and> strictly_ascending t
      \<and> distinct (addrs t) \<and> list_all (\<lambda>a. a < nextAddr s) (addrs t) \<and> 0 < nextAddr s)"

text \<open>The node of the key \<open>k\<close> in a search tree: its address and its item.\<close>

fun lookup :: "('k::linorder, 'v) tree \<Rightarrow> 'k \<Rightarrow> (nat \<times> ('k, 'v) item) option" where
  "lookup Leaf k = None"
| "lookup (Node l a c x r) k =
     (if k < fst x then lookup l k else if fst x < k then lookup r k else Some (a, x))"

text \<open>The search tree with the item of the key of \<open>y\<close> replaced by \<open>y\<close>.\<close>

fun replace_item :: "('k::linorder, 'v) item \<Rightarrow> ('k, 'v) tree \<Rightarrow> ('k, 'v) tree" where
  "replace_item y Leaf = Leaf"
| "replace_item y (Node l a c x r) =
     (if fst y < fst x then Node (replace_item y l) a c x r
      else if fst x < fst y then Node l a c x (replace_item y r)
      else Node l a c y r)"

section \<open>Positions in a tree\<close>

text \<open>
  A position in a tree, seen from a node upwards as the parent links see it: for
  every ancestor, whether the path comes up from its left or its right child,
  together with the ancestor's fields and its other subtree. \<open>plug t fs\<close> is the
  whole tree with \<open>t\<close> at the position \<open>fs\<close>.
\<close>

datatype ('k, 'v) frame =
    LeftOf nat color "('k, 'v) item" "('k, 'v) tree"
  | RightOf "('k, 'v) tree" nat color "('k, 'v) item"

fun plug :: "('k, 'v) tree \<Rightarrow> ('k, 'v) frame list \<Rightarrow> ('k, 'v) tree" where
  "plug t [] = t"
| "plug t (LeftOf a c x r # fs) = plug (Node t a c x r) fs"
| "plug t (RightOf l a c x # fs) = plug (Node l a c x t) fs"

text \<open>
  \<open>repr_ctx s p par fs\<close>: the parent links from \<open>par\<close>, the parent of the node or
  sentinel \<open>p\<close>, lead through the ancestors \<open>fs\<close> to the root of \<open>s\<close>.
\<close>

fun repr_ctx :: "('k, 'v) rbTree \<Rightarrow> ptr \<Rightarrow> ptr \<Rightarrow> ('k, 'v) frame list \<Rightarrow> bool" where
  "repr_ctx s p par [] = (par = tNil \<and> p = root s)"
| "repr_ctx s p par (LeftOf a c x r # fs) =
     (par = Ref a \<and> a \<noteq> 0 \<and> color (heap s a) = c \<and> item (heap s a) = Some x
      \<and> left (heap s a) = p \<and> repr s (right (heap s a)) (Ref a) r
      \<and> repr_ctx s (Ref a) (parent (heap s a)) fs)"
| "repr_ctx s p par (RightOf l a c x # fs) =
     (par = Ref a \<and> a \<noteq> 0 \<and> color (heap s a) = c \<and> item (heap s a) = Some x
      \<and> right (heap s a) = p \<and> repr s (left (heap s a)) (Ref a) l
      \<and> repr_ctx s (Ref a) (parent (heap s a)) fs)"

text \<open>The items of the whole tree before and after the subtree at a position, in order.\<close>

fun items_before :: "('k, 'v) frame list \<Rightarrow> ('k, 'v) item list" where
  "items_before [] = []"
| "items_before (LeftOf a c x r # fs) = items_before fs"
| "items_before (RightOf l a c x # fs) = items_before fs @ inorder l @ [x]"

fun items_after :: "('k, 'v) frame list \<Rightarrow> ('k, 'v) item list" where
  "items_after [] = []"
| "items_after (LeftOf a c x r # fs) = x # inorder r @ items_after fs"
| "items_after (RightOf l a c x # fs) = items_after fs"

fun ctx_addrs :: "('k, 'v) frame list \<Rightarrow> nat list" where
  "ctx_addrs [] = []"
| "ctx_addrs (LeftOf a c x r # fs) = a # addrs r @ ctx_addrs fs"
| "ctx_addrs (RightOf l a c x # fs) = a # addrs l @ ctx_addrs fs"

text \<open>The nearest ancestor that the path reaches from its left child, and from its right child.\<close>

fun first_left :: "('k, 'v) frame list \<Rightarrow> (nat \<times> ('k, 'v) item) option" where
  "first_left [] = None"
| "first_left (LeftOf a c x r # fs) = Some (a, x)"
| "first_left (RightOf l a c x # fs) = first_left fs"

fun first_right :: "('k, 'v) frame list \<Rightarrow> (nat \<times> ('k, 'v) item) option" where
  "first_right [] = None"
| "first_right (LeftOf a c x r # fs) = first_right fs"
| "first_right (RightOf l a c x # fs) = Some (a, x)"

text \<open>The first node in order with a key not less than \<open>k\<close>, and the last with a key not greater.\<close>

fun first_ge :: "('k::linorder, 'v) tree \<Rightarrow> 'k \<Rightarrow> (nat \<times> ('k, 'v) item) option" where
  "first_ge Leaf k = None"
| "first_ge (Node l a c x r) k =
     (case first_ge l k of
        Some y \<Rightarrow> Some y
      | None \<Rightarrow> if k \<le> fst x then Some (a, x) else first_ge r k)"

fun last_le :: "('k::linorder, 'v) tree \<Rightarrow> 'k \<Rightarrow> (nat \<times> ('k, 'v) item) option" where
  "last_le Leaf k = None"
| "last_le (Node l a c x r) k =
     (case last_le r k of
        Some y \<Rightarrow> Some y
      | None \<Rightarrow> if fst x \<le> k then Some (a, x) else last_le l k)"

text \<open>The pointer to such a node, the sentinel when there is none.\<close>

definition ptr_of :: "(nat \<times> ('k, 'v) item) option \<Rightarrow> ptr" where
  "ptr_of n = (case n of None \<Rightarrow> tNil | Some (a, x) \<Rightarrow> Ref a)"

text \<open>
  \<open>focus s a l c x r fs\<close>: the node at address \<open>a\<close> holds \<open>Node l a c x r\<close> and stands
  at the position \<open>fs\<close> of the tree of \<open>s\<close>.
\<close>

definition focus :: "('k, 'v) rbTree \<Rightarrow> nat \<Rightarrow> ('k, 'v) tree \<Rightarrow> color \<Rightarrow> ('k, 'v) item \<Rightarrow> ('k, 'v) tree \<Rightarrow> ('k, 'v) frame list \<Rightarrow> bool" where
  "focus s a l c x r fs =
     (repr s (Ref a) (parent (heap s a)) (Node l a c x r) \<and> repr_ctx s (Ref a) (parent (heap s a)) fs)"

text \<open>A small tree for examples: three calls on an empty tree, and the tree they build.\<close>

definition small_calls :: "(int, int) call list" where
  "small_calls = [Insert (2, 10), Insert (1, 20), Insert (3, 30)]"

definition small_tree :: "(int, int) tree" where
  "small_tree = Node (Node Leaf 2 red (1, 20) Leaf) 1 black (2, 10) (Node Leaf 3 red (3, 30) Leaf)"

section \<open>Lemmas about the store\<close>

lemma tNil_simps [simp]: "(Ref a = tNil) = (a = 0)" "(tNil = Ref a) = (a = 0)" "Null \<noteq> tNil" "tNil \<noteq> Null"
  by (auto simp: tNil_def)

lemma get_simps [simp]:
  "get_color s (Ref a) = Some (color (heap s a))"
  "get_item s (Ref a) = Some (item (heap s a))"
  "get_left s (Ref a) = Some (left (heap s a))"
  "get_right s (Ref a) = Some (right (heap s a))"
  "get_parent s (Ref a) = Some (parent (heap s a))"
  "get_color s Null = None" "get_item s Null = None" "get_left s Null = None"
  "get_right s Null = None" "get_parent s Null = None"
  by (simp_all add: get_color_def get_item_def get_left_def get_right_def get_parent_def)

lemma repr_frame:
  "\<forall>a \<in> set (addrs t). heap s' a = heap s a \<Longrightarrow> repr s' p par t = repr s p par t"
  by (induction t arbitrary: p par) auto

lemma repr_Leaf_iff: "repr s p par t \<Longrightarrow> (p = tNil) = (t = Leaf)"
  by (cases t) auto

lemma find_loop_repr:
  "repr s p par t \<Longrightarrow>
   \<exists>y'. find_loop s it p y = Some (case lookup t (fst it) of None \<Rightarrow> tNil | Some (a, x) \<Rightarrow> Ref a, y')"
proof (induction t arbitrary: p par y)
  case Leaf
  then show ?case by (subst find_loop.simps) simp
next
  case (Node l a c x r)
  from Node.prems have p: "p = Ref a" "a \<noteq> 0" "item (heap s a) = Some x"
    and l: "repr s (left (heap s a)) (Ref a) l" and r: "repr s (right (heap s a)) (Ref a) r"
    by auto
  show ?case
  proof (cases "fst it < fst x")
    case True
    with Node.IH(1)[OF l, of p] p show ?thesis
      by (subst find_loop.simps) (simp add: Less_def)
  next
    case False
    show ?thesis
    proof (cases "fst x < fst it")
      case True
      with Node.IH(2)[OF r, of p] p False show ?thesis
        by (subst find_loop.simps) (simp add: Less_def)
    next
      case f2: False
      with False p show ?thesis
        by (subst find_loop.simps) (simp add: Less_def)
    qed
  qed
qed

lemma sorted_Node:
  fixes x :: "('k::linorder, 'v) item"
  shows "sorted_wrt (<) (map fst (inorder (Node l a c x r))) =
     (sorted_wrt (<) (map fst (inorder l)) \<and> sorted_wrt (<) (map fst (inorder r))
      \<and> (\<forall>y \<in> set (inorder l). fst y < fst x) \<and> (\<forall>y \<in> set (inorder r). fst x < fst y))"
  by (fastforce simp: sorted_wrt_append)

lemma lookup_None_iff:
  "sorted_wrt (<) (map fst (inorder t)) \<Longrightarrow> (lookup t k = None) = (k \<notin> fst ` set (inorder t))"
proof (induction t)
  case Leaf
  then show ?case by simp
next
  case (Node l a c x r)
  from Node.prems have sl: "sorted_wrt (<) (map fst (inorder l))"
    and sr: "sorted_wrt (<) (map fst (inorder r))"
    and lt: "\<forall>y \<in> set (inorder l). fst y < fst x"
    and gt: "\<forall>y \<in> set (inorder r). fst x < fst y"
    unfolding sorted_Node by blast+
  show ?case
  proof (cases "k < fst x")
    case True
    then have "k \<notin> fst ` set (inorder r)" "k \<noteq> fst x" using gt by auto
    with True Node.IH(1)[OF sl] show ?thesis by auto
  next
    case False
    show ?thesis
    proof (cases "fst x < k")
      case True
      then have "k \<notin> fst ` set (inorder l)" "k \<noteq> fst x" using lt by auto
      with True False Node.IH(2)[OF sr] show ?thesis by auto
    next
      case f2: False
      with False have "k = fst x" by simp
      then show ?thesis by simp
    qed
  qed
qed

lemma lookup_Some:
  "lookup t k = Some (a, x) \<Longrightarrow> fst x = k \<and> a \<in> set (addrs t) \<and> x \<in> set (inorder t)"
  by (induction t) (auto split: if_splits)

lemma lookup_repr:
  "repr s p par t \<Longrightarrow> lookup t k = Some (a, x) \<Longrightarrow> item (heap s a) = Some x \<and> a \<noteq> 0"
  by (induction t arbitrary: p par) (auto split: if_splits)

lemma rbTree_find_repr:
  "repr s (root s) par t \<Longrightarrow>
   \<exists>y'. rbTree_find s it = Some (case lookup t (fst it) of None \<Rightarrow> tNil | Some (a, x) \<Rightarrow> Ref a, y')"
  unfolding rbTree_find_def by (rule find_loop_repr)

lemma addrs_replace_item [simp]: "addrs (replace_item y t) = addrs t"
  by (induction t) auto

lemma keys_replace_item [simp]: "map fst (inorder (replace_item y t)) = map fst (inorder t)"
  by (induction t) auto

lemma skeleton_replace_item:
  "map_tree (\<lambda>_. ()) (\<lambda>_. ()) (replace_item y t) = map_tree (\<lambda>_. ()) (\<lambda>_. ()) t"
  by (induction t) (auto simp: map_prod_def split: prod.splits)

lemma lookup_replace_item:
  "lookup t (fst y) = Some (a, x) \<Longrightarrow> lookup (replace_item y t) (fst y) = Some (a, y)"
  by (induction t) (auto split: if_splits)

lemma lookup_addr: "lookup t k = Some (a, x) \<Longrightarrow> a \<in> set (addrs t)"
  by (induction t) (auto split: if_splits)

lemma repr_replace_item:
  assumes "\<forall>b. b \<noteq> a \<longrightarrow> heap s' b = heap s b" and "heap s' a = (heap s a)\<lparr>item := Some y\<rparr>"
  shows "repr s p par t \<Longrightarrow> distinct (addrs t) \<Longrightarrow> lookup t (fst y) = Some (a, x) \<Longrightarrow>
    repr s' p par (replace_item y t)"
proof (induction t arbitrary: p par)
  case Leaf
  then show ?case by simp
next
  case (Node l b c z r)
  from Node.prems(1) have p: "p = Ref b" "b \<noteq> 0" "color (heap s b) = c" "item (heap s b) = Some z"
      "parent (heap s b) = par"
    and l: "repr s (left (heap s b)) (Ref b) l" and r: "repr s (right (heap s b)) (Ref b) r"
    by auto
  from Node.prems(2) have d: "distinct (addrs l)" "distinct (addrs r)" "b \<notin> set (addrs l)"
      "b \<notin> set (addrs r)" "set (addrs l) \<inter> set (addrs r) = {}"
    by auto
  show ?case
  proof (cases "fst y < fst z")
    case True
    with Node.prems(3) have lk: "lookup l (fst y) = Some (a, x)" by simp
    then have al: "a \<in> set (addrs l)" by (rule lookup_addr)
    with d have ab: "a \<noteq> b" and ar: "a \<notin> set (addrs r)" by auto
    from ab assms(1) have hb: "heap s' b = heap s b" by simp
    from ar assms(1) have "repr s' (right (heap s b)) (Ref b) r = repr s (right (heap s b)) (Ref b) r"
      by (intro repr_frame) auto
    with r Node.IH(1)[OF l d(1) lk] p hb True show ?thesis by simp
  next
    case False
    show ?thesis
    proof (cases "fst z < fst y")
      case True
      with False Node.prems(3) have lk: "lookup r (fst y) = Some (a, x)" by simp
      then have al: "a \<in> set (addrs r)" by (rule lookup_addr)
      with d have ab: "a \<noteq> b" and ar: "a \<notin> set (addrs l)" by auto
      from ab assms(1) have hb: "heap s' b = heap s b" by simp
      from ar assms(1) have "repr s' (left (heap s b)) (Ref b) l = repr s (left (heap s b)) (Ref b) l"
        by (intro repr_frame) auto
      with l Node.IH(2)[OF r d(2) lk] p hb True False show ?thesis by simp
    next
      case f2: False
      with False Node.prems(3) have ab: "a = b" by simp
      from d ab assms(1) have "repr s' (left (heap s b)) (Ref b) l = repr s (left (heap s b)) (Ref b) l"
        "repr s' (right (heap s b)) (Ref b) r = repr s (right (heap s b)) (Ref b) r"
        by (auto intro!: repr_frame)
      with l r p ab assms(2) False f2 show ?thesis by simp
    qed
  qed
qed

lemma inorder_plug: "inorder (plug t fs) = items_before fs @ inorder t @ items_after fs"
  by (induction t fs rule: plug.induct) auto

lemma set_addrs_plug: "set (addrs (plug t fs)) = set (addrs t) \<union> set (ctx_addrs fs)"
  by (induction t fs rule: plug.induct) auto

lemma distinct_addrs_plug:
  "distinct (addrs (plug t fs)) =
     (distinct (addrs t) \<and> distinct (ctx_addrs fs) \<and> set (addrs t) \<inter> set (ctx_addrs fs) = {})"
  by (induction t fs rule: plug.induct) auto

lemma repr_plug:
  "repr s (root s) tNil (plug t fs) = (\<exists>p par. repr s p par t \<and> repr_ctx s p par fs)"
proof (induction t fs rule: plug.induct)
  case (1 t)
  then show ?case by auto
next
  case (2 t a c x r fs)
  then show ?case by auto
next
  case (3 t l a c x fs)
  then show ?case by auto
qed

lemma position_of_addr:
  "a \<in> set (addrs t) \<Longrightarrow> \<exists>l c x r fs'. plug (Node l a c x r) fs' = plug t fs"
proof (induction t arbitrary: fs)
  case Leaf
  then show ?case by simp
next
  case (Node l b c x r)
  consider "a = b" | "a \<in> set (addrs l)" | "a \<in> set (addrs r)"
    using Node.prems by auto
  then show ?case
  proof cases
    case 1
    then show ?thesis by blast
  next
    case 2
    from Node.IH(1)[OF 2, of "LeftOf b c x r # fs"] show ?thesis by simp
  next
    case 3
    from Node.IH(2)[OF 3, of "RightOf l b c x # fs"] show ?thesis by simp
  qed
qed

lemma ptr_of_simps [simp]: "ptr_of None = tNil" "ptr_of (Some (a, x)) = Ref a"
  by (simp_all add: ptr_of_def)

lemma repr_root_addr: "repr s p par t \<Longrightarrow> p = Ref b \<Longrightarrow> b \<noteq> 0 \<Longrightarrow> b \<in> set (addrs t)"
  by (cases t) auto

lemma ceiling_climb_ctx:
  "repr_ctx s (Ref b) par fs \<Longrightarrow> b \<noteq> 0 \<Longrightarrow> b \<notin> set (ctx_addrs fs) \<Longrightarrow> distinct (ctx_addrs fs) \<Longrightarrow>
   ceiling_climb s par (Ref b) = Some (ptr_of (first_left fs))"
proof (induction fs arbitrary: b par)
  case Nil
  then show ?case by (subst ceiling_climb.simps) simp
next
  case (Cons f fs)
  show ?case
  proof (cases f)
    case (LeftOf a c x r)
    with Cons.prems have par: "par = Ref a" "a \<noteq> 0" and r: "repr s (right (heap s a)) (Ref a) r"
      and nb: "b \<notin> set (addrs r)"
      by auto
    have "right (heap s a) \<noteq> Ref b"
      using repr_root_addr[OF r, of b] nb Cons.prems(2) by auto
    with par LeftOf show ?thesis by (subst ceiling_climb.simps) auto
  next
    case (RightOf l a c x)
    with Cons.prems have par: "par = Ref a" "a \<noteq> 0" "right (heap s a) = Ref b"
      and c: "repr_ctx s (Ref a) (parent (heap s a)) fs"
      and d: "a \<notin> set (ctx_addrs fs)" "distinct (ctx_addrs fs)"
      by auto
    from Cons.IH[OF c par(2) d] par RightOf show ?thesis
      by (subst ceiling_climb.simps) simp
  qed
qed

lemma floor_climb_ctx:
  "repr_ctx s (Ref b) par fs \<Longrightarrow> b \<noteq> 0 \<Longrightarrow> b \<notin> set (ctx_addrs fs) \<Longrightarrow> distinct (ctx_addrs fs) \<Longrightarrow>
   floor_climb s par (Ref b) = Some (ptr_of (first_right fs))"
proof (induction fs arbitrary: b par)
  case Nil
  then show ?case by (subst floor_climb.simps) simp
next
  case (Cons f fs)
  show ?case
  proof (cases f)
    case (RightOf l a c x)
    with Cons.prems have par: "par = Ref a" "a \<noteq> 0" and l: "repr s (left (heap s a)) (Ref a) l"
      and nb: "b \<notin> set (addrs l)"
      by auto
    have "left (heap s a) \<noteq> Ref b"
      using repr_root_addr[OF l, of b] nb Cons.prems(2) by auto
    with par RightOf show ?thesis by (subst floor_climb.simps) auto
  next
    case (LeftOf a c x r)
    with Cons.prems have par: "par = Ref a" "a \<noteq> 0" "left (heap s a) = Ref b"
      and c: "repr_ctx s (Ref a) (parent (heap s a)) fs"
      and d: "a \<notin> set (ctx_addrs fs)" "distinct (ctx_addrs fs)"
      by auto
    from Cons.IH[OF c par(2) d] par LeftOf show ?thesis
      by (subst floor_climb.simps) simp
  qed
qed

lemma first_ge_None: "\<forall>y \<in> set (inorder t). fst y < k \<Longrightarrow> first_ge t k = None"
  by (induction t) auto

lemma last_le_None: "\<forall>y \<in> set (inorder t). k < fst y \<Longrightarrow> last_le t k = None"
  by (induction t) auto

lemma node_ceiling_ctx:
  "repr s p par t \<Longrightarrow> t \<noteq> Leaf \<Longrightarrow> repr_ctx s p par fs \<Longrightarrow> sorted_wrt (<) (map fst (inorder t)) \<Longrightarrow>
   distinct (addrs (plug t fs)) \<Longrightarrow>
   node_ceiling s p it =
     Some (case first_ge t (fst it) of Some (a, x) \<Rightarrow> Ref a | None \<Rightarrow> ptr_of (first_left fs))"
proof (induction t arbitrary: p par fs)
  case Leaf
  then show ?case by simp
next
  case (Node l a c x r)
  from Node.prems(1) have p: "p = Ref a" "a \<noteq> 0" "item (heap s a) = Some x" "parent (heap s a) = par"
    and l: "repr s (left (heap s a)) (Ref a) l" and r: "repr s (right (heap s a)) (Ref a) r"
    by auto
  from Node.prems(4) have sl: "sorted_wrt (<) (map fst (inorder l))"
    and sr: "sorted_wrt (<) (map fst (inorder r))"
    and lt: "\<forall>y \<in> set (inorder l). fst y < fst x"
    and gt: "\<forall>y \<in> set (inorder r). fst x < fst y"
    unfolding sorted_Node by blast+
  have cl: "repr_ctx s (left (heap s a)) (Ref a) (LeftOf a c x r # fs)"
    and cr: "repr_ctx s (right (heap s a)) (Ref a) (RightOf l a c x # fs)"
    using Node.prems(1,3) by auto
  have dl: "distinct (addrs (plug l (LeftOf a c x r # fs)))"
    and dr: "distinct (addrs (plug r (RightOf l a c x # fs)))"
    using Node.prems(5) by simp_all
  from Node.prems(5) have da: "a \<notin> set (ctx_addrs fs)" "distinct (ctx_addrs fs)"
    by (auto simp: distinct_addrs_plug)
  show ?case
  proof (cases "fst it < fst x")
    case True
    then have le: "fst it \<le> fst x" by simp
    show ?thesis
    proof (cases "l = Leaf")
      case True
      with l \<open>fst it < fst x\<close> le p show ?thesis
        by (subst node_ceiling.simps) (simp add: Less_def)
    next
      case False
      with l have "left (heap s a) \<noteq> tNil" by (cases l) auto
      with Node.IH(1)[OF l False cl sl dl] True le p show ?thesis
        by (subst node_ceiling.simps) (auto simp add: Less_def split: option.splits)
    qed
  next
    case False
    show ?thesis
    proof (cases "fst x < fst it")
      case True
      with lt have "\<forall>y \<in> set (inorder l). fst y < fst it" by auto
      then have fl: "first_ge l (fst it) = None" by (rule first_ge_None)
      from True have nle: "\<not> fst it \<le> fst x" by simp
      show ?thesis
      proof (cases "r = Leaf")
        case rl: True
        with r have rn: "right (heap s a) = tNil" by simp
        from ceiling_climb_ctx[OF _ p(2) da] Node.prems(3) p
        have "ceiling_climb s par (Ref a) = Some (ptr_of (first_left fs))" by simp
        with rn rl fl True False nle p show ?thesis
          by (subst node_ceiling.simps) (simp add: Less_def)
      next
        case rl: False
        with r have "right (heap s a) \<noteq> tNil" by (cases r) auto
        with Node.IH(2)[OF r rl cr sr dr] fl True False nle p show ?thesis
          by (subst node_ceiling.simps) (auto simp add: Less_def split: option.splits)
      qed
    next
      case f2: False
      with False have e: "fst it = fst x" by simp
      with lt have "\<forall>y \<in> set (inorder l). fst y < fst it" by auto
      then have fl: "first_ge l (fst it) = None" by (rule first_ge_None)
      with e p show ?thesis
        by (subst node_ceiling.simps) (simp add: Less_def)
    qed
  qed
qed

lemma node_floor_ctx:
  "repr s p par t \<Longrightarrow> t \<noteq> Leaf \<Longrightarrow> repr_ctx s p par fs \<Longrightarrow> sorted_wrt (<) (map fst (inorder t)) \<Longrightarrow>
   distinct (addrs (plug t fs)) \<Longrightarrow>
   node_floor s p it =
     Some (case last_le t (fst it) of Some (a, x) \<Rightarrow> Ref a | None \<Rightarrow> ptr_of (first_right fs))"
proof (induction t arbitrary: p par fs)
  case Leaf
  then show ?case by simp
next
  case (Node l a c x r)
  from Node.prems(1) have p: "p = Ref a" "a \<noteq> 0" "item (heap s a) = Some x" "parent (heap s a) = par"
    and l: "repr s (left (heap s a)) (Ref a) l" and r: "repr s (right (heap s a)) (Ref a) r"
    by auto
  from Node.prems(4) have sl: "sorted_wrt (<) (map fst (inorder l))"
    and sr: "sorted_wrt (<) (map fst (inorder r))"
    and lt: "\<forall>y \<in> set (inorder l). fst y < fst x"
    and gt: "\<forall>y \<in> set (inorder r). fst x < fst y"
    unfolding sorted_Node by blast+
  have cl: "repr_ctx s (left (heap s a)) (Ref a) (LeftOf a c x r # fs)"
    and cr: "repr_ctx s (right (heap s a)) (Ref a) (RightOf l a c x # fs)"
    using Node.prems(1,3) by auto
  have dl: "distinct (addrs (plug l (LeftOf a c x r # fs)))"
    and dr: "distinct (addrs (plug r (RightOf l a c x # fs)))"
    using Node.prems(5) by simp_all
  from Node.prems(5) have da: "a \<notin> set (ctx_addrs fs)" "distinct (ctx_addrs fs)"
    by (auto simp: distinct_addrs_plug)
  show ?case
  proof (cases "fst x < fst it")
    case True
    then have le: "fst x \<le> fst it" by simp
    show ?thesis
    proof (cases "r = Leaf")
      case True
      with r \<open>fst x < fst it\<close> le p show ?thesis
        by (subst node_floor.simps) (simp add: Less_def)
    next
      case False
      with r have "right (heap s a) \<noteq> tNil" by (cases r) auto
      with Node.IH(2)[OF r False cr sr dr] True le p show ?thesis
        by (subst node_floor.simps) (auto simp add: Less_def split: option.splits)
    qed
  next
    case False
    show ?thesis
    proof (cases "fst it < fst x")
      case True
      with gt have "\<forall>y \<in> set (inorder r). fst it < fst y" by auto
      then have fr: "last_le r (fst it) = None" by (rule last_le_None)
      from True have nle: "\<not> fst x \<le> fst it" by simp
      show ?thesis
      proof (cases "l = Leaf")
        case ll: True
        with l have ln: "left (heap s a) = tNil" by simp
        from floor_climb_ctx[OF _ p(2) da] Node.prems(3) p
        have "floor_climb s par (Ref a) = Some (ptr_of (first_right fs))" by simp
        with ln ll fr True False nle p show ?thesis
          by (subst node_floor.simps) (simp add: Less_def)
      next
        case ll: False
        with l have "left (heap s a) \<noteq> tNil" by (cases l) auto
        with Node.IH(1)[OF l ll cl sl dl] fr True False nle p show ?thesis
          by (subst node_floor.simps) (auto simp add: Less_def split: option.splits)
      qed
    next
      case f2: False
      with False have e: "fst it = fst x" by simp
      with gt have "\<forall>y \<in> set (inorder r). fst it < fst y" by auto
      then have fr: "last_le r (fst it) = None" by (rule last_le_None)
      with e p show ?thesis
        by (subst node_floor.simps) (simp add: Less_def)
    qed
  qed
qed

lemma well_formedD:
  "well_formed s t \<Longrightarrow> repr s (root s) tNil t"
  "well_formed s t \<Longrightarrow> sorted_wrt (<) (map fst (inorder t))"
  "well_formed s t \<Longrightarrow> distinct (addrs t)"
  "well_formed s t \<Longrightarrow> sentinel_ok s"
  by (simp_all add: well_formed_def strictly_ascending_def keys_def)

lemma node_ceiling_root:
  assumes "well_formed s t"
  shows "node_ceiling s (root s) it = Some (ptr_of (first_ge t (fst it)))"
proof (cases "t = Leaf")
  case True
  with well_formedD(1)[OF assms] show ?thesis by (subst node_ceiling.simps) simp
next
  case False
  from node_ceiling_ctx[OF well_formedD(1)[OF assms] False, of "[]" it] well_formedD(2,3)[OF assms]
  show ?thesis by (auto split: option.splits)
qed

lemma node_floor_root:
  assumes "well_formed s t"
  shows "node_floor s (root s) it = Some (ptr_of (last_le t (fst it)))"
proof (cases "t = Leaf")
  case True
  with well_formedD(1)[OF assms] show ?thesis by (subst node_floor.simps) simp
next
  case False
  from node_floor_ctx[OF well_formedD(1)[OF assms] False, of "[]" it] well_formedD(2,3)[OF assms]
  show ?thesis by (auto split: option.splits)
qed

lemma find_append:
  "List.find P (xs @ ys) = (case List.find P xs of None \<Rightarrow> List.find P ys | Some x \<Rightarrow> Some x)"
  by (induction xs) auto

lemma first_ge_find: "map_option snd (first_ge t k) = List.find (\<lambda>x. k \<le> fst x) (inorder t)"
  by (induction t) (auto simp: find_append split: option.splits)

lemma last_le_find: "map_option snd (last_le t k) = List.find (\<lambda>x. fst x \<le> k) (rev (inorder t))"
  by (induction t) (auto simp: find_append split: option.splits)

lemma first_ge_repr:
  "repr s p par t \<Longrightarrow> first_ge t k = Some (a, x) \<Longrightarrow> item (heap s a) = Some x \<and> a \<noteq> 0"
  by (induction t arbitrary: p par) (auto split: option.splits if_splits)

lemma last_le_repr:
  "repr s p par t \<Longrightarrow> last_le t k = Some (a, x) \<Longrightarrow> item (heap s a) = Some x \<and> a \<noteq> 0"
  by (induction t arbitrary: p par) (auto split: option.splits if_splits)


lemma subTree_Max_last_le:
  assumes "well_formed s t"
  shows "subTree_Max st s = Some (map_option snd (last_le t (fst (toKey st))))"
proof (cases "last_le t (fst (toKey st))")
  case None
  with node_floor_root[OF assms, of "toKey st"] show ?thesis
    by (simp add: subTree_Max_def)
next
  case (Some y)
  obtain a x where y: "y = (a, x)" by (cases y)
  from last_le_repr[OF well_formedD(1)[OF assms], of "fst (toKey st)" a x] Some y
  have "item (heap s a) = Some x" "a \<noteq> 0" by auto
  with node_floor_root[OF assms, of "toKey st"] Some y show ?thesis
    by (simp add: subTree_Max_def)
qed

lemma last_le_key_present:
  "sorted_wrt (<) (map fst (inorder t)) \<Longrightarrow> k \<in> fst ` set (inorder t) \<Longrightarrow>
   \<exists>a v. last_le t k = Some (a, (k, v))"
proof (induction t)
  case Leaf
  then show ?case by simp
next
  case (Node l a c x r)
  from Node.prems(1) have sl: "sorted_wrt (<) (map fst (inorder l))"
    and sr: "sorted_wrt (<) (map fst (inorder r))"
    and lt: "\<forall>y \<in> set (inorder l). fst y < fst x"
    and gt: "\<forall>y \<in> set (inorder r). fst x < fst y"
    unfolding sorted_Node by blast+
  consider "k \<in> fst ` set (inorder r)" | "k = fst x" | "k \<in> fst ` set (inorder l)"
    using Node.prems(2) by auto
  then show ?case
  proof cases
    case 1
    from Node.IH(2)[OF sr 1] show ?thesis by auto
  next
    case 2
    with gt have "\<forall>y \<in> set (inorder r). k < fst y" by auto
    then have "last_le r k = None" by (rule last_le_None)
    with 2 show ?thesis by (cases x) auto
  next
    case 3
    with lt have kx: "k < fst x" by auto
    with gt have "\<forall>y \<in> set (inorder r). k < fst y" by auto
    then have "last_le r k = None" by (rule last_le_None)
    with kx Node.IH(1)[OF sl 3] show ?thesis by auto
  qed
qed

lemma focus_left:
  "focus s a (Node ll b cb xb rb) c x r fs \<Longrightarrow> focus s b ll cb xb rb (LeftOf a c x r # fs)"
  by (auto simp: focus_def)

lemma focus_right:
  "focus s a l c x (Node rl b cb xb rr) fs \<Longrightarrow> focus s b rl cb xb rr (RightOf l a c x # fs)"
  by (auto simp: focus_def)

lemma node_min_focus:
  "focus s a l c x r fs \<Longrightarrow>
   \<exists>m cm xm rm fs'. node_min s (Ref a) = Some (Ref m) \<and> focus s m Leaf cm xm rm fs'
     \<and> plug (Node Leaf m cm xm rm) fs' = plug (Node l a c x r) fs
     \<and> xm # inorder rm @ items_after fs' = inorder (Node l a c x r) @ items_after fs"
proof (induction l arbitrary: a c x r fs)
  case Leaf
  then have "left (heap s a) = tNil" by (simp add: focus_def)
  then have "node_min s (Ref a) = Some (Ref a)" by (subst node_min.simps) simp
  with Leaf show ?case by fastforce
next
  case (Node ll b cb xb rb)
  from Node.prems have l: "left (heap s a) = Ref b" "b \<noteq> 0" by (auto simp: focus_def)
  from Node.IH(1)[OF focus_left[OF Node.prems]]
  obtain m cm xm rm fs' where m: "node_min s (Ref b) = Some (Ref m)" "focus s m Leaf cm xm rm fs'"
    "plug (Node Leaf m cm xm rm) fs' = plug (Node ll b cb xb rb) (LeftOf a c x r # fs)"
    "xm # inorder rm @ items_after fs' = inorder (Node ll b cb xb rb) @ items_after (LeftOf a c x r # fs)"
    by blast
  from l m(1) have "node_min s (Ref a) = Some (Ref m)" by (subst node_min.simps) simp
  with m(2,3,4) show ?case by fastforce
qed

lemma first_left_None_items: "first_left fs = None \<Longrightarrow> items_after fs = []"
  by (induction fs rule: first_left.induct) auto

lemma climb_to_left_ancestor:
  "repr s p par t \<Longrightarrow> repr_ctx s p par fs \<Longrightarrow> first_left fs = Some (a', y) \<Longrightarrow>
   \<exists>l' c' r' fs'. focus s a' l' c' y r' fs' \<and> plug (Node l' a' c' y r') fs' = plug t fs
     \<and> items_after fs = y # inorder r' @ items_after fs'"
proof (induction fs arbitrary: t p par)
  case Nil
  then show ?case by simp
next
  case (Cons f fs)
  show ?case
  proof (cases f)
    case (LeftOf a c x r)
    with Cons.prems have "focus s a t c x r fs" "a' = a" "y = x"
      by (auto simp: focus_def)
    with LeftOf show ?thesis by fastforce
  next
    case (RightOf l a c x)
    with Cons.prems have r: "repr s (Ref a) (parent (heap s a)) (Node l a c x t)"
      and c: "repr_ctx s (Ref a) (parent (heap s a)) fs" and f: "first_left fs = Some (a', y)"
      by auto
    from Cons.IH[OF r c f] RightOf show ?thesis by simp
  qed
qed

text \<open>The outcome of the loop of Next and of the test after it.\<close>

lemma next_climb_ctx:
  "repr_ctx s (Ref b) par fs \<Longrightarrow> b \<noteq> 0 \<Longrightarrow> b \<notin> set (ctx_addrs fs) \<Longrightarrow> distinct (ctx_addrs fs) \<Longrightarrow>
   sentinel_ok s \<Longrightarrow>
   \<exists>x' y'. next_climb s (Ref b) par = Some (x', y') \<and>
     (case first_left fs of
        Some (a', y) \<Rightarrow> y' = Ref a' \<and> right (heap s a') \<noteq> x'
      | None \<Rightarrow> (y' = tNil \<and> x' \<noteq> Null) \<or> (\<exists>a'. y' = Ref a' \<and> a' \<noteq> 0 \<and> right (heap s a') = x'))"
proof (induction fs arbitrary: b par)
  case Nil
  then have par: "par = tNil" by simp
  from Nil.prems(5) have "right (heap s 0) = Null" by (simp add: sentinel_ok_def)
  with par have "next_climb s (Ref b) par = Some (Ref b, tNil)"
    by (subst next_climb.simps) (simp add: tNil_def)
  then show ?case by simp
next
  case (Cons f fs)
  show ?case
  proof (cases f)
    case (LeftOf a c x r)
    with Cons.prems have par: "par = Ref a" "a \<noteq> 0" and r: "repr s (right (heap s a)) (Ref a) r"
      and nb: "b \<notin> set (addrs r)"
      by auto
    have ne: "right (heap s a) \<noteq> Ref b"
      using repr_root_addr[OF r, of b] nb Cons.prems(2) by auto
    with par have "next_climb s (Ref b) par = Some (Ref b, Ref a)"
      by (subst next_climb.simps) simp
    with ne LeftOf show ?thesis by simp
  next
    case (RightOf l a c x)
    with Cons.prems have par: "par = Ref a" "a \<noteq> 0" "right (heap s a) = Ref b"
      and c: "repr_ctx s (Ref a) (parent (heap s a)) fs"
      and d: "a \<notin> set (ctx_addrs fs)" "distinct (ctx_addrs fs)"
      by auto
    show ?thesis
    proof (cases fs)
      case Nil
      with c have "parent (heap s a) = tNil" by simp
      with par have "next_climb s (Ref b) par = Some (Ref b, Ref a)"
        by (subst next_climb.simps) simp
      with par Nil RightOf show ?thesis by simp
    next
      case (Cons g gs)
      with c have "parent (heap s a) \<noteq> tNil" by (cases g) auto
      with par have "next_climb s (Ref b) par = next_climb s (Ref a) (parent (heap s a))"
        by (subst next_climb.simps) simp
      with Cons.IH[OF c par(2) d Cons.prems(5)] RightOf show ?thesis by simp
    qed
  qed
qed

lemma focusD:
  "focus s a l c x r fs \<Longrightarrow> a \<noteq> 0"
  "focus s a l c x r fs \<Longrightarrow> item (heap s a) = Some x"
  "focus s a l c x r fs \<Longrightarrow> repr s (right (heap s a)) (Ref a) r"
  "focus s a l c x r fs \<Longrightarrow> repr_ctx s (Ref a) (parent (heap s a)) fs"
  "focus s a l c x r fs \<Longrightarrow> repr s (Ref a) (parent (heap s a)) (Node l a c x r)"
  by (auto simp: focus_def)

lemma iterator_Next_focus:
  assumes f: "focus s a l c x r fs" and d: "distinct (addrs (plug (Node l a c x r) fs))"
    and so: "sentinel_ok s"
  shows "case inorder r @ items_after fs of
           [] \<Rightarrow> \<exists>it'. iterator_Next s \<lparr>node = Ref a, state = deferencable\<rparr> = Some (it', None)
                   \<and> (state it' = pastRear \<or> node it' = tNil)
         | y # ys \<Rightarrow> \<exists>a' l' c' r' fs'.
               iterator_Next s \<lparr>node = Ref a, state = deferencable\<rparr>
                 = Some (\<lparr>node = Ref a', state = deferencable\<rparr>, Some y)
               \<and> focus s a' l' c' y r' fs'
               \<and> plug (Node l' a' c' y r') fs' = plug (Node l a c x r) fs
               \<and> inorder r' @ items_after fs' = ys"
proof (cases r)
  case (Node rl b cb xb rr)
  from focusD(3)[OF f] Node have rb: "right (heap s a) = Ref b" "b \<noteq> 0" by auto
  from node_min_focus[OF focus_right[OF f[unfolded Node]]]
  obtain m cm xm rm fs' where m: "node_min s (Ref b) = Some (Ref m)" "focus s m Leaf cm xm rm fs'"
    "plug (Node Leaf m cm xm rm) fs' = plug (Node rl b cb xb rr) (RightOf l a c x # fs)"
    "xm # inorder rm @ items_after fs' = inorder (Node rl b cb xb rr) @ items_after (RightOf l a c x # fs)"
    by blast
  have nx: "iterator_Next s \<lparr>node = Ref a, state = deferencable\<rparr>
      = Some (\<lparr>node = Ref m, state = deferencable\<rparr>, Some xm)"
    using focusD(1)[OF f] rb m(1) focusD(2)[OF m(2)] by (simp add: iterator_Next_def)
  from m(4) Node have "inorder r @ items_after fs = xm # inorder rm @ items_after fs'" by simp
  with nx m(2,3) Node show ?thesis by auto
next
  case Leaf
  from focusD(3)[OF f] Leaf have rn: "right (heap s a) = tNil" by simp
  from d have da: "a \<notin> set (ctx_addrs fs)" "distinct (ctx_addrs fs)"
    by (auto simp: distinct_addrs_plug)
  from next_climb_ctx[OF focusD(4)[OF f] focusD(1)[OF f] da so]
  obtain x' y' where cl: "next_climb s (Ref a) (parent (heap s a)) = Some (x', y')"
    and o: "case first_left fs of
        Some (a', y) \<Rightarrow> y' = Ref a' \<and> right (heap s a') \<noteq> x'
      | None \<Rightarrow> (y' = tNil \<and> x' \<noteq> Null) \<or> (\<exists>a'. y' = Ref a' \<and> a' \<noteq> 0 \<and> right (heap s a') = x')"
    by blast
  from so have s0: "right (heap s 0) = Null" "item (heap s 0) = None" by (simp_all add: sentinel_ok_def)
  show ?thesis
  proof (cases "first_left fs")
    case None
    then have e: "inorder r @ items_after fs = []" using Leaf by (simp add: first_left_None_items)
    from o None consider "y' = tNil" "x' \<noteq> Null" | a' where "y' = Ref a'" "a' \<noteq> 0" "right (heap s a') = x'"
      by auto
    then have "\<exists>it'. iterator_Next s \<lparr>node = Ref a, state = deferencable\<rparr> = Some (it', None)
                   \<and> (state it' = pastRear \<or> node it' = tNil)"
    proof cases
      case 1
      with cl rn s0 focusD(1)[OF f] show ?thesis
        by (simp add: iterator_Next_def tNil_def)
    next
      case 2
      with cl rn focusD(1)[OF f] show ?thesis
        by (simp add: iterator_Next_def)
    qed
    with e show ?thesis by simp
  next
    case (Some ay)
    obtain a' y where ay: "ay = (a', y)" by (cases ay)
    from o Some ay have y': "y' = Ref a'" "right (heap s a') \<noteq> x'" by auto
    from climb_to_left_ancestor[OF focusD(5)[OF f] focusD(4)[OF f] Some[unfolded ay]]
    obtain l' c' r' fs' where n: "focus s a' l' c' y r' fs'"
      "plug (Node l' a' c' y r') fs' = plug (Node l a c x r) fs"
      "items_after fs = y # inorder r' @ items_after fs'"
      by blast
    have nx: "iterator_Next s \<lparr>node = Ref a, state = deferencable\<rparr>
        = Some (\<lparr>node = Ref a', state = deferencable\<rparr>, Some y)"
      using cl rn y' focusD(1)[OF f] focusD(2)[OF n(1)] by (simp add: iterator_Next_def)
    from n(3) Leaf have "inorder r @ items_after fs = y # inorder r' @ items_after fs'" by simp
    with nx n(1,2) show ?thesis by auto
  qed
qed

lemma subIterator_collect_focus:
  "focus s a l c x r fs \<Longrightarrow> distinct (addrs (plug (Node l a c x r) fs)) \<Longrightarrow> sentinel_ok s \<Longrightarrow>
   ys = inorder r @ items_after fs \<Longrightarrow>
   subIterator_collect s \<lparr>iter = \<lparr>node = Ref a, state = deferencable\<rparr>, it_toKey = k\<rparr>
     = Some (takeWhile (\<lambda>y. \<not> Less k y) ys)"
proof (induction ys arbitrary: a l c x r fs)
  case Nil
  from iterator_Next_focus[OF Nil.prems(1,2,3)] Nil.prems(4)
  obtain it' where "iterator_Next s \<lparr>node = Ref a, state = deferencable\<rparr> = Some (it', None)"
    by (auto simp del: append_is_Nil_conv Nil_is_append_conv)
  then show ?case
    by (subst subIterator_collect.simps) (simp add: subIterator_Next_def)
next
  case (Cons y ys)
  from iterator_Next_focus[OF Cons.prems(1,2,3)] Cons.prems(4)[symmetric]
  obtain a' l' c' r' fs' where n:
    "iterator_Next s \<lparr>node = Ref a, state = deferencable\<rparr>
       = Some (\<lparr>node = Ref a', state = deferencable\<rparr>, Some y)"
    "focus s a' l' c' y r' fs'"
    "plug (Node l' a' c' y r') fs' = plug (Node l a c x r) fs"
    "inorder r' @ items_after fs' = ys"
    by auto
  from n(3) Cons.prems(2) have d': "distinct (addrs (plug (Node l' a' c' y r') fs'))" by simp
  from Cons.IH[OF n(2) d' Cons.prems(3) n(4)[symmetric]]
  have ih: "subIterator_collect s \<lparr>iter = \<lparr>node = Ref a', state = deferencable\<rparr>, it_toKey = k\<rparr>
     = Some (takeWhile (\<lambda>y. \<not> Less k y) ys)" .
  show ?case
  proof (cases "Less k y")
    case True
    with n(1) show ?thesis
      by (subst subIterator_collect.simps) (simp add: subIterator_Next_def)
  next
    case False
    with n(1) ih show ?thesis
      by (subst subIterator_collect.simps) (simp add: subIterator_Next_def)
  qed
qed

lemma subIterator_collect_start:
  assumes f: "focus s a l c x r fs" and d: "distinct (addrs (plug (Node l a c x r) fs))"
    and so: "sentinel_ok s"
  shows "subIterator_collect s \<lparr>iter = \<lparr>node = Ref a, state = beforeFirst\<rparr>, it_toKey = k\<rparr>
     = Some (takeWhile (\<lambda>y. \<not> Less k y) (x # inorder r @ items_after fs))"
proof -
  have nx: "iterator_Next s \<lparr>node = Ref a, state = beforeFirst\<rparr>
      = Some (\<lparr>node = Ref a, state = deferencable\<rparr>, Some x)"
    using focusD(1,2)[OF f] by (simp add: iterator_Next_def)
  show ?thesis
  proof (cases "Less k x")
    case True
    with nx show ?thesis
      by (subst subIterator_collect.simps) (simp add: subIterator_Next_def)
  next
    case False
    with nx subIterator_collect_focus[OF f d so refl, of k] show ?thesis
      by (subst subIterator_collect.simps) (simp add: subIterator_Next_def)
  qed
qed

lemma subIterator_collect_tNil:
  "subIterator_collect s \<lparr>iter = \<lparr>node = tNil, state = beforeFirst\<rparr>, it_toKey = k\<rparr> = Some []"
  by (subst subIterator_collect.simps) (simp add: subIterator_Next_def iterator_Next_def)

lemma first_ge_addr: "first_ge t k = Some (a, x) \<Longrightarrow> a \<in> set (addrs t)"
  by (induction t) (auto split: option.splits if_splits)

lemma focus_of_first_ge:
  assumes wf: "well_formed s t" and fg: "first_ge t k = Some (a, x)"
  shows "\<exists>l c r fs. focus s a l c x r fs \<and> plug (Node l a c x r) fs = t"
proof -
  from position_of_addr[OF first_ge_addr[OF fg], of "[]"]
  obtain l c x' r fs where pl: "plug (Node l a c x' r) fs = t" by auto
  from well_formedD(1)[OF wf] pl have "repr s (root s) tNil (plug (Node l a c x' r) fs)" by simp
  then obtain p par where r: "repr s p par (Node l a c x' r)" and c: "repr_ctx s p par fs"
    unfolding repr_plug by blast
  from r have p: "p = Ref a" "par = parent (heap s a)" "item (heap s a) = Some x'" by auto
  from first_ge_repr[OF well_formedD(1)[OF wf] fg] p(3) have "x' = x" by simp
  with r c p pl show ?thesis by (auto simp: focus_def)
qed

lemma find_in_set: "List.find P xs = Some x \<Longrightarrow> x \<in> set xs \<and> P x"
  by (induction xs) (auto split: if_splits)

lemma find_first_in_sorted:
  fixes x :: "('k::linorder, 'v) item"
  assumes "sorted_wrt (<) (map fst (pre @ x # post))"
    and "List.find (\<lambda>y. k \<le> fst y) (pre @ x # post) = Some x"
  shows "(\<forall>y \<in> set pre. fst y < k) \<and> k \<le> fst x"
proof -
  from assms(1) have lt: "\<forall>z \<in> set pre. fst z < fst x" by (auto simp: sorted_wrt_append)
  have "List.find (\<lambda>y. k \<le> fst y) pre = None"
  proof (cases "List.find (\<lambda>y. k \<le> fst y) pre")
    case None
    then show ?thesis .
  next
    case (Some z)
    with assms(2) have "z = x" by (simp add: find_append)
    with find_in_set[OF Some] lt show ?thesis by auto
  qed
  then have a: "\<forall>y \<in> set pre. fst y < k" by (auto simp: find_None_iff not_le)
  from find_in_set[OF assms(2)] have "k \<le> fst x" by simp
  with a show ?thesis by simp
qed

lemma takeWhile_le_sorted:
  fixes xs :: "('k::linorder, 'v) item list"
  shows "sorted_wrt (<) (map fst xs) \<Longrightarrow>
    takeWhile (\<lambda>y. fst y \<le> m) xs = filter (\<lambda>y. fst y \<le> m) xs"
proof (induction xs)
  case Nil
  then show ?case by simp
next
  case (Cons y ys)
  show ?case
  proof (cases "fst y \<le> m")
    case True
    with Cons show ?thesis by simp
  next
    case False
    with Cons.prems have "\<forall>z \<in> set ys. \<not> fst z \<le> m" by auto
    then have "filter (\<lambda>y. fst y \<le> m) ys = []" by (simp add: filter_empty_conv)
    with False show ?thesis by simp
  qed
qed

lemma range_of_sorted:
  fixes x :: "('k::linorder, 'v) item"
  assumes "sorted_wrt (<) (map fst (pre @ x # post))" and "\<forall>y \<in> set pre. fst y < k" and "k \<le> fst x"
  shows "takeWhile (\<lambda>y. \<not> fst m < fst y) (x # post)
     = filter (\<lambda>y. k \<le> fst y \<and> fst y \<le> fst m) (pre @ x # post)"
proof -
  from assms(1) have s2: "sorted_wrt (<) (map fst (x # post))" by (simp add: sorted_wrt_append)
  then have ge: "\<forall>y \<in> set (x # post). k \<le> fst y" using assms(3) by auto
  from assms(2) have "filter (\<lambda>y. k \<le> fst y \<and> fst y \<le> fst m) pre = []"
    by (auto simp: filter_empty_conv)
  moreover from ge have "filter (\<lambda>y. k \<le> fst y \<and> fst y \<le> fst m) (x # post)
      = filter (\<lambda>y. fst y \<le> fst m) (x # post)"
    by (intro filter_cong) auto
  moreover have "takeWhile (\<lambda>y. \<not> fst m < fst y) (x # post) = takeWhile (\<lambda>y. fst y \<le> fst m) (x # post)"
    by (simp add: not_less)
  ultimately show ?thesis using takeWhile_le_sorted[OF s2, of "fst m"] by simp
qed

lemma subTree_items_filter:
  assumes wf: "well_formed s t"
  shows "subTree_items s st
    = Some (filter (\<lambda>x. fst (fromKey st) \<le> fst x \<and> fst x \<le> fst (toKey st)) (inorder t))"
proof (cases "first_ge t (fst (fromKey st))")
  case None
  then have "List.find (\<lambda>x. fst (fromKey st) \<le> fst x) (inorder t) = None"
    using first_ge_find[of t "fst (fromKey st)"] by simp
  then have "filter (\<lambda>x. fst (fromKey st) \<le> fst x \<and> fst x \<le> fst (toKey st)) (inorder t) = []"
    by (auto simp: find_None_iff filter_empty_conv)
  with node_ceiling_root[OF wf, of "fromKey st"] None show ?thesis
    by (simp add: subTree_items_def subTree_NewIterator_def subIterator_collect_tNil)
next
  case (Some ax)
  obtain a x where ax: "ax = (a, x)" by (cases ax)
  from focus_of_first_ge[OF wf Some[unfolded ax]]
  obtain l c r fs where f: "focus s a l c x r fs" and pl: "plug (Node l a c x r) fs = t" by blast
  from well_formedD(3)[OF wf] pl have d: "distinct (addrs (plug (Node l a c x r) fs))" by simp
  have io: "inorder t = (items_before fs @ inorder l) @ x # (inorder r @ items_after fs)"
    using inorder_plug[of "Node l a c x r" fs] pl by simp
  from Some ax have fd: "List.find (\<lambda>y. fst (fromKey st) \<le> fst y) (inorder t) = Some x"
    using first_ge_find[of t "fst (fromKey st)"] by simp
  from well_formedD(2)[OF wf] io
  have srt: "sorted_wrt (<) (map fst ((items_before fs @ inorder l) @ x # (inorder r @ items_after fs)))"
    by simp
  from find_first_in_sorted[OF srt fd[unfolded io]]
  have b: "\<forall>y \<in> set (items_before fs @ inorder l). fst y < fst (fromKey st)" "fst (fromKey st) \<le> fst x"
    by simp_all
  from range_of_sorted[OF srt b, of "toKey st"] io
  have "takeWhile (\<lambda>y. \<not> Less (toKey st) y) (x # inorder r @ items_after fs)
      = filter (\<lambda>x. fst (fromKey st) \<le> fst x \<and> fst x \<le> fst (toKey st)) (inorder t)"
    by (simp add: Less_def)
  with subIterator_collect_start[OF f d well_formedD(4)[OF wf], of "toKey st"]
    node_ceiling_root[OF wf, of "fromKey st"] Some ax
  show ?thesis
    by (simp add: subTree_items_def subTree_NewIterator_def)
qed

section \<open>The claims\<close>

text \<open>
  Claim C1 (red-black invariants after every Insert and Remove). The claim fails on the
  code: after the calls Insert 1, 2, 4, 5, 6, 3 the tree satisfies the four properties,
  and the call Remove 1 on it returns \<open>(true, nil)\<close> with a tree whose paths from the
  root to the sentinel hold 2, 3, 4, 4, 2 and 1 black nodes. The call reaches case 3 of
  \<open>removeFixup\<close>, which ends with \<open>x = x.parent\<close> and leaves the sibling \<open>w\<close> on the
  node that the rotation has moved down; case 4 then recolours and rotates one level
  too high.
\<close>

theorem C1_remove_breaks_black_counts:
  "do_calls New (map (\<lambda>n. Insert (IntItem n)) [1, 2, 4, 5, 6, 3]) \<bind> (\<lambda>s. Some (rb_invariants s)) = Some True
   \<and> do_calls New (map (\<lambda>n. Insert (IntItem n)) [1, 2, 4, 5, 6, 3]) \<bind> (\<lambda>s. rbTree_Remove s (IntItem 1))
        \<bind> (\<lambda>(s, b, e). Some (b, e, rb_invariants s, map_option black_counts (tree_of (nextAddr s) s (root s))))
      = Some (True, None, False, Some [2, 3, 4, 4, 2, 1])"
  by code_simp

text \<open>
  Claim C2 (the view \<open>[fromKey, toKey)\<close> iterates the keys below \<open>toKey\<close>) fails at
  the tree of the tests with the bounds 5 and 31: the iterator of the view yields the
  key 31 as well, since \<open>subIterator.Next\<close> stops only at an item that \<open>toKey\<close> is less
  than. The test \<open>TestSubTreeIterator\<close> expects this list.
\<close>

theorem C2_counterexample:
  "test_tree \<bind> (\<lambda>s. subTree_items s \<lparr>fromKey = IntItem 5, toKey = IntItem 31\<rparr>)
     = Some (map IntItem [6, 8, 9, 12, 19, 21, 23, 31])
   \<and> test_tree \<bind> (\<lambda>s. subTree_items s \<lparr>fromKey = IntItem 5, toKey = IntItem 31\<rparr>)
     \<noteq> Some (map IntItem [6, 8, 9, 12, 19, 21, 23])"
  by code_simp

text \<open>
  Claim C3 (keys outside \<open>[fromKey, toKey)\<close> are rejected) fails at a key equal to
  \<open>toKey\<close>: through the view with bounds 1 and 5 on an empty tree, Insert 5 is passed
  on to the tree and returns \<open>(true, nil)\<close>.
\<close>

theorem C3_counterexample:
  "Less (IntItem 4) (IntItem 5) \<and> \<not> Less (IntItem 5) (IntItem 5)
   \<and> subTree_Insert \<lparr>fromKey = IntItem 1, toKey = IntItem 5\<rparr> New (IntItem 5)
        \<bind> (\<lambda>(s, b, e). Some (b, e, rbTree_Len s)) = Some (True, None, 1)"
  by code_simp

text \<open>
  Claim C3 as amended: for a key less than \<open>fromKey\<close> or greater than \<open>toKey\<close>, Insert
  and Remove through the view return \<open>(false, ErrorOutOfSubTreeRange)\<close> and leave the
  backing tree as it is, and Find returns \<open>nil\<close>; for every other key, \<open>toKey\<close>
  included, the call is the call on the backing tree.
\<close>

theorem C3_range_check:
  "subTree_Insert st s it =
     (if Less it (fromKey st) \<or> Less (toKey st) it then Some (s, False, Some ErrorOutOfSubTreeRange)
      else rbTree_Insert s it)
   \<and> subTree_Remove st s it =
     (if Less it (fromKey st) \<or> Less (toKey st) it then Some (s, False, Some ErrorOutOfSubTreeRange)
      else rbTree_Remove s it)
   \<and> subTree_Find st s it =
     (if Less it (fromKey st) \<or> Less (toKey st) it then Some None
      else rbTree_Find s it)"
  by (simp add: subTree_Insert_def subTree_Remove_def subTree_Find_def subTree_inRange_def)




text \<open>
  Claim C10 (on a plain tree Insert and Remove always return, with the error \<open>nil\<close>).
  The claim fails on the code: the calls Insert 2, 1, 4, 3 on an empty tree all return
  and leave a tree of length 4 that satisfies the red-black properties and holds the
  key 1, and the call Remove 1 on it does not return. It reaches case 3 of
  \<open>removeFixup\<close> below the root; \<open>x = x.parent\<close> makes \<open>x\<close> the root, and case 4
  calls \<open>leftRotate(x.parent)\<close>, which is \<open>leftRotate(tNil)\<close> and dereferences the
  \<open>nil\<close> link \<open>tNil.right\<close>. The slip is the one of claim C1.
\<close>

theorem C10_remove_does_not_return:
  "do_calls New (map (\<lambda>n. Insert (IntItem n)) [2, 1, 4, 3])
     \<bind> (\<lambda>s. Some (rb_invariants s, rbTree_Len s, rbTree_Find s (IntItem 1)))
     = Some (True, 4, Some (Some (IntItem 1)))
   \<and> do_calls New (map (\<lambda>n. Insert (IntItem n)) [2, 1, 4, 3])
     \<bind> (\<lambda>s. rbTree_Remove s (IntItem 1)) = None"
  by code_simp

text \<open>
  What holds of the error on a plain tree: every call of \<open>rbTree.Insert\<close> and of
  \<open>rbTree.Remove\<close> that returns, returns the error \<open>nil\<close>.
\<close>

lemma error_is_nil_on_return:
  "(rbTree_Insert s it = Some (s', b, e) \<longrightarrow> e = None)
   \<and> (rbTree_Remove s it = Some (s', b, e) \<longrightarrow> e = None)"
  by (auto simp add: rbTree_Insert_def rbTree_Remove_def alloc_def Let_def split: Option.bind_splits prod.splits if_splits)

text \<open>
  Claim C5 (Insert of an item equal to a stored one). On a well-formed tree that holds
  the key of the item, Insert returns \<open>(false, nil)\<close>; afterwards the length and the
  root are the same, the store holds the same tree with the item of that key replaced
  (same shape, addresses and colours), and Find of any item with that key returns the
  inserted item.
\<close>

theorem C5_insert_equal_key:
  assumes "well_formed s t" and "fst it \<in> set (keys t)"
  shows "\<exists>s'. rbTree_Insert s it = Some (s', False, None)
           \<and> rbTree_Len s' = rbTree_Len s \<and> root s' = root s
           \<and> well_formed s' (replace_item it t)
           \<and> map_tree (\<lambda>_. ()) (\<lambda>_. ()) (replace_item it t) = map_tree (\<lambda>_. ()) (\<lambda>_. ()) t
           \<and> rbTree_Find s' (fst it, v) = Some (Some it)"
proof -
  from assms(1) have r: "repr s (root s) tNil t" and srt: "sorted_wrt (<) (map fst (inorder t))"
    and so: "sentinel_ok s" and d: "distinct (addrs t)"
    and lt: "\<forall>a \<in> set (addrs t). a < nextAddr s" and n0: "0 < nextAddr s"
    by (simp_all add: well_formed_def strictly_ascending_def keys_def list_all_iff)
  let ?n = "nextAddr s"
  let ?z = "\<lparr>color = red, item = Some it, left = tNil, right = tNil, parent = tNil\<rparr>"
  let ?s1 = "s\<lparr>heap := (heap s)(?n := ?z), nextAddr := Suc ?n\<rparr>"
  from assms(2) srt obtain a x where lk: "lookup t (fst it) = Some (a, x)"
    using lookup_None_iff[OF srt, of "fst it"] by (auto simp: keys_def)
  then have a: "a \<in> set (addrs t)" by (rule lookup_addr)
  with lt have an: "a < ?n" by auto
  from lookup_repr[OF r lk] have a0: "a \<noteq> 0" by simp
  have h1: "\<forall>b. b \<noteq> ?n \<longrightarrow> heap ?s1 b = heap s b" "root ?s1 = root s" by simp_all
  have "repr ?s1 (root s) tNil t = repr s (root s) tNil t"
    by (rule repr_frame) (use lt h1 in auto)
  with r h1 have r1: "repr ?s1 (root ?s1) tNil t" by simp
  from rbTree_find_repr[OF r1, of it] lk obtain y' where f: "rbTree_find ?s1 it = Some (Ref a, y')"
    by auto
  obtain s2 where s2: "set_item ?s1 (Ref a) (Some it) = Some s2"
    by (simp add: set_item_def)
  then have h2: "\<forall>b. b \<noteq> a \<longrightarrow> heap s2 b = heap ?s1 b" "heap s2 a = (heap ?s1 a)\<lparr>item := Some it\<rparr>"
    "root s2 = root s" "nextAddr s2 = Suc ?n" "rb_length s2 = rb_length s"
    by (auto simp add: set_item_def)
  have ins: "rbTree_Insert s it = Some (s2, False, None)"
    using f s2 a0 an by (simp add: rbTree_Insert_def rbTree_insert_def alloc_def)
  have r2: "repr s2 (root s2) tNil (replace_item it t)"
    using repr_replace_item[OF h2(1) h2(2) _ d lk, of "root ?s1" tNil] r1 h2(3) by simp
  have so2: "sentinel_ok s2"
    using so h2(1) a0 n0 by (simp add: sentinel_ok_def)
  have wf2: "well_formed s2 (replace_item it t)"
    using r2 so2 n0 lt srt d h2(4)
    by (auto simp add: well_formed_def strictly_ascending_def keys_def list_all_iff)
  from rbTree_find_repr[OF r2, of "(fst it, v)"] lookup_replace_item[OF lk]
  obtain y'' where "rbTree_find s2 (fst it, v) = Some (Ref a, y'')" by auto
  then have fnd: "rbTree_Find s2 (fst it, v) = Some (Some it)"
    using a0 h2(2) by (simp add: rbTree_Find_def)
  show ?thesis
    using ins wf2 fnd skeleton_replace_item[of it t]
    by (intro exI[of _ s2]) (simp add: rbTree_Len_def h2)
qed

theorem C5_insert_equal_key_witness:
  "do_calls New small_calls \<bind> (\<lambda>s. rbTree_Insert s (2, 99) \<bind> (\<lambda>(s', b, e).
     Some (well_formed s small_tree, 2 \<in> set (keys small_tree), b, e,
           rbTree_Len s' = rbTree_Len s, rbTree_Find s' (2, 0))))
   = Some (True, True, False, None, True, Some (Some (2, 99)))"
proof -
  have "do_calls New small_calls \<noteq> None" by code_simp
  then obtain s where s: "do_calls New small_calls = Some s" by auto
  have "do_calls New small_calls \<bind> (\<lambda>s. Some (well_formed s small_tree)) = Some True" by code_simp
  with s have wf: "well_formed s small_tree" by simp
  have k: "fst (2, 99) \<in> set (keys small_tree)" by code_simp
  from C5_insert_equal_key [OF wf k, of 0] obtain s' where
    "rbTree_Insert s (2, 99) = Some (s', False, None)" "rbTree_Len s' = rbTree_Len s"
    "rbTree_Find s' (2, 0) = Some (Some (2, 99))"
    by auto
  with s wf k show ?thesis by simp
qed

text \<open>
  Claim C9 (Remove and Find of a key that is not stored). On a well-formed tree that
  does not hold the key of the item, Remove returns \<open>(false, nil)\<close> and leaves the
  tree, its store and its length as they are, and Find returns \<open>nil\<close>.
\<close>

theorem C9_missing_key:
  assumes "well_formed s t" and "fst it \<notin> set (keys t)"
  shows "rbTree_Remove s it = Some (s, False, None) \<and> rbTree_Find s it = Some None"
proof -
  from assms(1) have r: "repr s (root s) tNil t" and srt: "sorted_wrt (<) (map fst (inorder t))"
    by (simp_all add: well_formed_def strictly_ascending_def keys_def)
  from assms(2) srt have "lookup t (fst it) = None"
    by (simp add: lookup_None_iff keys_def)
  with rbTree_find_repr[OF r, of it] obtain y' where "rbTree_find s it = Some (tNil, y')"
    by auto
  then show ?thesis by (simp add: rbTree_Remove_def rbTree_Find_def)
qed

theorem C9_missing_key_witness:
  "do_calls New small_calls \<bind> (\<lambda>s.
     Some (well_formed s small_tree, 7 \<notin> set (keys small_tree),
           rbTree_Remove s (7, 0) = Some (s, False, None), rbTree_Find s (7, 0)))
   = Some (True, True, True, Some None)"
proof -
  have "do_calls New small_calls \<noteq> None" by code_simp
  then obtain s where s: "do_calls New small_calls = Some s" by auto
  have "do_calls New small_calls \<bind> (\<lambda>s. Some (well_formed s small_tree)) = Some True" by code_simp
  with s have wf: "well_formed s small_tree" by simp
  have k: "fst (7, 0) \<notin> set (keys small_tree)" by code_simp
  from C9_missing_key [OF wf k] s wf k show ?thesis by simp
qed

text \<open>
  Claim C7 (\<open>SubTree.Max\<close> is the floor of \<open>toKey\<close>). On a well-formed tree
  \<open>subTree.Max\<close> returns the item of the node that \<open>floor(root, toKey)\<close> returns,
  \<open>nil\<close> for the sentinel; that is the item with the greatest key not greater than
  \<open>toKey\<close>, the last such item in order; so when the tree holds the key of \<open>toKey\<close>,
  \<open>Max\<close> returns the item of that key.
\<close>

theorem C7_subTree_Max_is_floor:
  assumes "well_formed s t"
  shows "(\<exists>n. node_floor s (root s) (toKey st) = Some n
            \<and> subTree_Max st s = (if n = tNil then Some None else get_item s n))
         \<and> subTree_Max st s = Some (List.find (\<lambda>x. fst x \<le> fst (toKey st)) (rev (inorder t)))
         \<and> (fst (toKey st) \<in> set (keys t) \<longrightarrow>
              map_option (map_option fst) (subTree_Max st s) = Some (Some (fst (toKey st))))"
proof -
  have a: "\<exists>n. node_floor s (root s) (toKey st) = Some n
            \<and> subTree_Max st s = (if n = tNil then Some None else get_item s n)"
    using node_floor_root[OF assms, of "toKey st"] by (simp add: subTree_Max_def)
  have b: "subTree_Max st s = Some (List.find (\<lambda>x. fst x \<le> fst (toKey st)) (rev (inorder t)))"
    using subTree_Max_last_le[OF assms, of st] by (simp add: last_le_find)
  have c: "map_option (map_option fst) (subTree_Max st s) = Some (Some (fst (toKey st)))"
    if "fst (toKey st) \<in> set (keys t)"
  proof -
    from that have "fst (toKey st) \<in> fst ` set (inorder t)" by (simp add: keys_def)
    from last_le_key_present[OF well_formedD(2)[OF assms] this]
    obtain a v where "last_le t (fst (toKey st)) = Some (a, (fst (toKey st), v))" by blast
    with subTree_Max_last_le[OF assms, of st] show ?thesis by simp
  qed
  from a b c show ?thesis by blast
qed

theorem C7_subTree_Max_is_floor_witness:
  "do_calls New small_calls \<bind> (\<lambda>s.
     Some (well_formed s small_tree, 3 \<in> set (keys small_tree),
           subTree_Max \<lparr>fromKey = (1, 0), toKey = (3, 0)\<rparr> s))
   = Some (True, True, Some (Some (3, 30)))"
proof -
  have "do_calls New small_calls \<noteq> None" by code_simp
  then obtain s where s: "do_calls New small_calls = Some s" by auto
  have "do_calls New small_calls \<bind> (\<lambda>s. Some (well_formed s small_tree)) = Some True" by code_simp
  with s have wf: "well_formed s small_tree" by simp
  have k: "3 \<in> set (keys small_tree)" by code_simp
  have f: "List.find (\<lambda>x. fst x \<le> fst (toKey \<lparr>fromKey = (1, 0), toKey = (3, 0 :: int)\<rparr>)) (rev (inorder small_tree))
    = Some (3, 30)"
    by code_simp
  from C7_subTree_Max_is_floor [OF wf, of "\<lparr>fromKey = (1, 0), toKey = (3, 0)\<rparr>"] f
  have "subTree_Max \<lparr>fromKey = (1, 0), toKey = (3, 0)\<rparr> s = Some (Some (3, 30))" by simp
  with s wf k show ?thesis by simp
qed



text \<open>
  Claim C2 as amended: on a well-formed tree, the iterator of the view with bounds
  \<open>fromKey\<close> and \<open>toKey\<close> yields exactly the items with a key not less than
  \<open>fromKey\<close> and not greater than \<open>toKey\<close>, in ascending order; a call of \<open>Next\<close>
  whose underlying item is greater than \<open>toKey\<close> sets the wrapped iterator to
  \<open>pastRear\<close> and yields \<open>nil\<close>, and any other item is passed on. Over the tree of the
  tests the bounds 5 and 31 give 6, 8, 9, 12, 19, 21, 23, 31.
\<close>

theorem C2_subTree_iteration:
  assumes "well_formed s t"
  shows "subTree_items s st
           = Some (filter (\<lambda>x. fst (fromKey st) \<le> fst x \<and> fst x \<le> fst (toKey st)) (inorder t))
         \<and> sorted_wrt (<) (map fst (filter (\<lambda>x. fst (fromKey st) \<le> fst x \<and> fst x \<le> fst (toKey st)) (inorder t)))
         \<and> (state (iter it) \<noteq> pastRear \<longrightarrow> iterator_Next s (iter it) = Some (i, Some x) \<longrightarrow>
              subIterator_Next s it =
                (if Less (it_toKey it) x then Some (it\<lparr>iter := i\<lparr>state := pastRear\<rparr>\<rparr>, None)
                 else Some (it\<lparr>iter := i\<rparr>, Some x)))
         \<and> test_tree \<bind> (\<lambda>s. subTree_items s \<lparr>fromKey = IntItem 5, toKey = IntItem 31\<rparr>)
             = Some (map IntItem [6, 8, 9, 12, 19, 21, 23, 31])"
proof -
  have a: "sorted_wrt (<) (map fst (filter (\<lambda>x. fst (fromKey st) \<le> fst x \<and> fst x \<le> fst (toKey st)) (inorder t)))"
    using well_formedD(2)[OF assms] by (simp add: sorted_wrt_map sorted_wrt_filter)
  have b: "subIterator_Next s it =
                (if Less (it_toKey it) x then Some (it\<lparr>iter := i\<lparr>state := pastRear\<rparr>\<rparr>, None)
                 else Some (it\<lparr>iter := i\<rparr>, Some x))"
    if "state (iter it) \<noteq> pastRear" "iterator_Next s (iter it) = Some (i, Some x)"
    using that by (simp add: subIterator_Next_def)
  have c: "test_tree \<bind> (\<lambda>s. subTree_items s \<lparr>fromKey = IntItem 5, toKey = IntItem 31\<rparr>)
             = Some (map IntItem [6, 8, 9, 12, 19, 21, 23, 31])"
    by code_simp
  from subTree_items_filter[OF assms, of st] a b c show ?thesis by blast
qed

theorem C2_subTree_iteration_witness:
  "do_calls New small_calls \<bind> (\<lambda>s.
     Some (well_formed s small_tree, subTree_items s \<lparr>fromKey = (2, 0), toKey = (3, 0)\<rparr>))
   = Some (True, Some [(2, 10), (3, 30)])"
proof -
  have "do_calls New small_calls \<noteq> None" by code_simp
  then obtain s where s: "do_calls New small_calls = Some s" by auto
  have "do_calls New small_calls \<bind> (\<lambda>s. Some (well_formed s small_tree)) = Some True" by code_simp
  with s have wf: "well_formed s small_tree" by simp
  have f: "filter (\<lambda>x. fst (fromKey \<lparr>fromKey = (2, 0), toKey = (3, 0 :: int)\<rparr>) \<le> fst x
             \<and> fst x \<le> fst (toKey \<lparr>fromKey = (2, 0 :: int), toKey = (3, 0 :: int)\<rparr>)) (inorder small_tree)
    = [(2, 10), (3, 30)]"
    by code_simp
  from C2_subTree_iteration [OF wf, of "\<lparr>fromKey = (2, 0), toKey = (3, 0)\<rparr>"] f
  have "subTree_items s \<lparr>fromKey = (2, 0), toKey = (3, 0)\<rparr> = Some [(2, 10), (3, 30)]" by simp
  with s wf show ?thesis by simp
qed

end
